theory Spec2Isabelle
  imports Main "HOL-Library.Word" "HOL-Library.Sublist"
begin

unbundle bit_operations_syntax

section \<open>eBPF programs attached to cgroups (kernel/bpf/cgroup.c)\<close>

text \<open>
  The C names are kept; the leading underscores of \<^verbatim>\<open>__cgroup_bpf_update\<close> and of the
  \<^verbatim>\<open>__cgroup_bpf_run_filter_*\<close> functions are dropped, since an identifier cannot
  start with one.
\<close>

subsection \<open>Data model\<close>

text \<open>
  A \<^verbatim>\<open>struct bpf_prog *\<close> is a program handle; \<^verbatim>\<open>NULL\<close> is \<open>None\<close>.
  An \<^verbatim>\<open>enum bpf_attach_type\<close> indexes the per-type arrays of \<^verbatim>\<open>struct cgroup_bpf\<close>,
  which are functions of the attach type here.
\<close>

type_synonym bpf_prog = nat
type_synonym bpf_attach_type = nat

text \<open>An entry of a \<^verbatim>\<open>progs[type]\<close> list; an entry whose \<^verbatim>\<open>prog\<close> is \<^verbatim>\<open>NULL\<close> is skipped by
  every reader of the list.\<close>

record bpf_prog_list =
  pl_prog :: "bpf_prog option"

text \<open>
  \<^verbatim>\<open>struct cgroup_bpf\<close> is declared in a header that is not among the sources; its fields
  are the ones kernel/bpf/cgroup.c reads and writes: \<^verbatim>\<open>prog[]\<close>, \<^verbatim>\<open>effective[]\<close> and
  \<^verbatim>\<open>disallow_override[]\<close> (cgroup_bpf_put, cgroup_bpf_inherit, __cgroup_bpf_update, the run
  functions), \<^verbatim>\<open>progs[]\<close> and \<^verbatim>\<open>flags[]\<close> (prog_list_length, hierarchy_allows_attach,
  compute_effective_progs).
\<close>

record cgroup_bpf =
  prog :: "bpf_attach_type \<Rightarrow> bpf_prog option"
  progs :: "bpf_attach_type \<Rightarrow> bpf_prog_list list"
  flags :: "bpf_attach_type \<Rightarrow> 32 word"
  effective :: "bpf_attach_type \<Rightarrow> bpf_prog option"
  disallow_override :: "bpf_attach_type \<Rightarrow> bool"

text \<open>
  Modelled from the spec: the cgroup tree (\<^verbatim>\<open>struct cgroup\<close>, \<^verbatim>\<open>cgroup_parent\<close>,
  \<^verbatim>\<open>css_for_each_descendant_pre\<close>, \<^verbatim>\<open>css_rightmost_descendant\<close>) is not among the sources.
  The spec has a strict tree: one parent, zero or more ordered children, a root with no
  parent. A cgroup is a node carrying its \<^verbatim>\<open>bpf\<close> member and its children; a pointer to
  a cgroup is the path of child indices from the root, and the parent of a cgroup is the
  path without its last index.
\<close>

datatype cgroup = Cgroup (bpf: cgroup_bpf) (children: "cgroup list")

type_synonym cgroup_ptr = "nat list"

fun cgroup_at :: "cgroup \<Rightarrow> cgroup_ptr \<Rightarrow> cgroup option" where
  "cgroup_at c [] = Some c"
| "cgroup_at (Cgroup b cs) (i # p) = (if i < length cs then cgroup_at (cs ! i) p else None)"

fun modify_at :: "cgroup_ptr \<Rightarrow> (cgroup \<Rightarrow> cgroup) \<Rightarrow> cgroup \<Rightarrow> cgroup" where
  "modify_at [] f c = f c"
| "modify_at (i # p) f (Cgroup b cs) =
     (if i < length cs then Cgroup b (cs[i := modify_at p f (cs ! i)]) else Cgroup b cs)"

definition cgroup_parent :: "cgroup_ptr \<Rightarrow> cgroup_ptr option" where
  "cgroup_parent p = (if p = [] then None else Some (butlast p))"

text \<open>
  The state the functions work on: the tree, the static key \<^verbatim>\<open>cgroup_bpf_enabled_key\<close>
  (the count of \<^verbatim>\<open>static_branch_inc\<close> minus \<^verbatim>\<open>static_branch_dec\<close>), and the programs handed
  to \<^verbatim>\<open>bpf_prog_put\<close>, latest first.
\<close>

record kstate =
  root_cgrp :: cgroup
  cgroup_bpf_enabled_key :: int
  bpf_prog_put_log :: "bpf_prog list"

text \<open>Error numbers of errno-base.h, returned negated.\<close>

definition EPERM :: int where "EPERM = 1"
definition ENOENT :: int where "ENOENT = 2"
definition ENOMEM :: int where "ENOMEM = 12"

subsection \<open>__cgroup_bpf_update\<close>

text \<open>
  Lines 233-244, the walk over the descendants of \<^verbatim>\<open>cgrp\<close> in pre-order, \<^verbatim>\<open>cgrp\<close> first.
  \<open>is_cgrp\<close> is the test \<^verbatim>\<open>desc == cgrp\<close>. A descendant with a program of its own is left
  as it is and \<^verbatim>\<open>css_rightmost_descendant\<close> moves the cursor to the end of its subtree,
  so none of its descendants is visited; any other descendant gets the effective program
  and the override flag, and the walk goes on into its children.
\<close>

fun update_descendants ::
  "bpf_attach_type \<Rightarrow> bpf_prog option \<Rightarrow> bool \<Rightarrow> bool \<Rightarrow> cgroup \<Rightarrow> cgroup" where
  "update_descendants type eff overridable is_cgrp (Cgroup b cs) =
     (if prog b type \<noteq> None \<and> \<not> is_cgrp then Cgroup b cs
      else Cgroup
             (b\<lparr>effective := (effective b)(type := eff),
                disallow_override := (disallow_override b)(type := \<not> overridable)\<rparr>)
             (map (update_descendants type eff overridable False) cs))"

text \<open>Line 231, \<^verbatim>\<open>cgrp->bpf.prog[type] = prog\<close>.\<close>

fun set_prog :: "bpf_attach_type \<Rightarrow> bpf_prog option \<Rightarrow> cgroup \<Rightarrow> cgroup" where
  "set_prog type prg (Cgroup b cs) = Cgroup (b\<lparr>prog := (prog b)(type := prg)\<rparr>) cs"

text \<open>
  Lines 193-199: \<^verbatim>\<open>overridable\<close> and \<^verbatim>\<open>effective\<close> as read from \<^verbatim>\<open>parent\<close>, or
  \<^verbatim>\<open>true\<close> and \<^verbatim>\<open>NULL\<close> when \<^verbatim>\<open>parent\<close> is \<^verbatim>\<open>NULL\<close>. The result is \<open>None\<close> when
  \<^verbatim>\<open>parent\<close> does not point to a cgroup of the tree.
\<close>

definition from_parent ::
  "kstate \<Rightarrow> cgroup_ptr option \<Rightarrow> bpf_attach_type \<Rightarrow> (bool \<times> bpf_prog option) option" where
  "from_parent s parent type =
     (case parent of
        None \<Rightarrow> Some (True, None)
      | Some pp \<Rightarrow>
          (case cgroup_at (root_cgrp s) pp of
             None \<Rightarrow> None
           | Some pc \<Rightarrow> Some (\<not> disallow_override (bpf pc) type, effective (bpf pc) type)))"

text \<open>
  The function returns its \<^verbatim>\<open>int\<close> result and the state it leaves. \<open>None\<close> stands for
  a call whose \<^verbatim>\<open>cgrp\<close> or \<^verbatim>\<open>parent\<close> is not a cgroup of the tree.
\<close>

definition cgroup_bpf_update ::
  "kstate \<Rightarrow> cgroup_ptr \<Rightarrow> cgroup_ptr option \<Rightarrow> bpf_prog option \<Rightarrow> bpf_attach_type \<Rightarrow> bool
     \<Rightarrow> (int \<times> kstate) option" where
  "cgroup_bpf_update s cgrp parent prg type new_overridable =
     (case cgroup_at (root_cgrp s) cgrp of
        None \<Rightarrow> None
      | Some c \<Rightarrow>
          (case from_parent s parent type of
             None \<Rightarrow> None
           | Some (overridable0, effective0) \<Rightarrow>
               if prg \<noteq> None \<and> effective0 \<noteq> None \<and> \<not> overridable0 then Some (- EPERM, s)
               else if prg \<noteq> None \<and> effective0 \<noteq> None \<and> overridable0 \<noteq> new_overridable
               then Some (- EPERM, s)
               else
                 let old_prog = prog (bpf c) type;
                     overridable = (if prg \<noteq> None then new_overridable else overridable0);
                     eff = (if prg \<noteq> None then prg else effective0)
                 in
                   if prg \<noteq> None \<and> old_prog \<noteq> None
                      \<and> disallow_override (bpf c) type = new_overridable
                   then Some (- EPERM, s)
                   else if prg = None \<and> old_prog = None then Some (- ENOENT, s)
                   else
                     let s1 = s\<lparr>root_cgrp :=
                                 modify_at cgrp
                                   (\<lambda>c. update_descendants type eff overridable True
                                          (set_prog type prg c))
                                   (root_cgrp s)\<rparr>;
                         s2 = (if prg \<noteq> None
                               then s1\<lparr>cgroup_bpf_enabled_key := cgroup_bpf_enabled_key s1 + 1\<rparr>
                               else s1);
                         s3 = (case old_prog of
                                 None \<Rightarrow> s2
                               | Some old \<Rightarrow>
                                   s2\<lparr>bpf_prog_put_log := old # bpf_prog_put_log s2,
                                      cgroup_bpf_enabled_key := cgroup_bpf_enabled_key s2 - 1\<rparr>)
                     in Some (0, s3)))"


text \<open>
  The cgroups the walk of lines 233-244 writes when it starts at \<open>c\<close>: \<open>c\<close> itself, and a
  descendant \<open>q\<close> of \<open>c\<close> when no cgroup on the way from below \<open>c\<close> down to \<open>q\<close>, \<open>q\<close>
  included, has a program of its own for the type. \<open>published\<close> is what the walk writes
  into the \<^verbatim>\<open>bpf\<close> member of such a cgroup.
\<close>

fun reached :: "bpf_attach_type \<Rightarrow> cgroup \<Rightarrow> cgroup_ptr \<Rightarrow> bool" where
  "reached type c [] = True"
| "reached type (Cgroup b cs) (i # q) =
     (i < length cs \<and> prog (bpf (cs ! i)) type = None \<and> reached type (cs ! i) q)"

definition published ::
  "bpf_attach_type \<Rightarrow> bpf_prog option \<Rightarrow> bool \<Rightarrow> cgroup_bpf \<Rightarrow> cgroup_bpf" where
  "published type eff ov b =
     b\<lparr>effective := (effective b)(type := eff),
       disallow_override := (disallow_override b)(type := \<not> ov)\<rparr>"

definition bpf_at :: "cgroup \<Rightarrow> cgroup_ptr \<Rightarrow> cgroup_bpf option" where
  "bpf_at t p = map_option bpf (cgroup_at t p)"

subsection \<open>cgroup_bpf_inherit\<close>

fun map_bpf :: "(cgroup_bpf \<Rightarrow> cgroup_bpf) \<Rightarrow> cgroup \<Rightarrow> cgroup" where
  "map_bpf f (Cgroup b cs) = Cgroup (f b) cs"

text \<open>
  The body of the loop, lines 151-156, for one \<open>type\<close>: \<^verbatim>\<open>parent\<close> is read, the effective
  program of \<^verbatim>\<open>cgrp\<close> is written, \<^verbatim>\<open>parent\<close> is read again and the override flag of
  \<^verbatim>\<open>cgrp\<close> is written.
\<close>

definition inherit_type ::
  "cgroup_ptr \<Rightarrow> cgroup_ptr \<Rightarrow> bpf_attach_type \<Rightarrow> cgroup \<Rightarrow> cgroup" where
  "inherit_type cgrp parent type t =
     (case cgroup_at t parent of
        None \<Rightarrow> t
      | Some pc \<Rightarrow>
          let e = effective (bpf pc) type;
              t1 = modify_at cgrp (map_bpf (\<lambda>b. b\<lparr>effective := (effective b)(type := e)\<rparr>)) t
          in (case cgroup_at t1 parent of
                None \<Rightarrow> t1
              | Some pc1 \<Rightarrow>
                  modify_at cgrp
                    (map_bpf (\<lambda>b. b\<lparr>disallow_override :=
                                 (disallow_override b)(type := disallow_override (bpf pc1) type)\<rparr>))
                    t1))"

text \<open>
  \<open>nr\<close> is \<^verbatim>\<open>ARRAY_SIZE(cgrp->bpf.effective)\<close>, the number of attach types, which the
  missing header fixes. \<open>None\<close> stands for a call whose \<^verbatim>\<open>cgrp\<close> or \<^verbatim>\<open>parent\<close> is not a
  cgroup of the tree.
\<close>

definition cgroup_bpf_inherit ::
  "nat \<Rightarrow> kstate \<Rightarrow> cgroup_ptr \<Rightarrow> cgroup_ptr \<Rightarrow> kstate option" where
  "cgroup_bpf_inherit nr s cgrp parent =
     (if cgroup_at (root_cgrp s) cgrp = None \<or> cgroup_at (root_cgrp s) parent = None then None
      else Some (s\<lparr>root_cgrp := fold (inherit_type cgrp parent) [0..<nr] (root_cgrp s)\<rparr>))"

definition inh :: "bpf_attach_type \<Rightarrow> cgroup_bpf \<Rightarrow> cgroup_bpf \<Rightarrow> cgroup_bpf" where
  "inh type pb b =
     b\<lparr>effective := (effective b)(type := effective pb type),
       disallow_override := (disallow_override b)(type := disallow_override pb type)\<rparr>"

subsection \<open>The run functions\<close>

text \<open>
  \<^verbatim>\<open>struct sock\<close> and \<^verbatim>\<open>struct sk_buff\<close> are declared outside the sources. Of a socket
  the model keeps what the run functions ask of it: \<^verbatim>\<open>sk_family\<close>, the answer of
  \<^verbatim>\<open>sk_fullsock(sk)\<close> and the cgroup \<^verbatim>\<open>sock_cgroup_ptr(&sk->sk_cgrp_data)\<close>. Of a buffer it
  keeps \<^verbatim>\<open>sk\<close>, \<^verbatim>\<open>data\<close>, \<^verbatim>\<open>len\<close> and the position \<^verbatim>\<open>skb_network_header(skb)\<close>; positions
  are byte addresses.
\<close>

record sock =
  sk_family :: "16 word"
  sk_fullsock :: bool
  sk_cgrp :: cgroup_ptr

record sk_buff =
  skb_sk :: "sock option"
  skb_data :: int
  skb_len :: "32 word"
  skb_network_header :: int

text \<open>Address families of socket.h.\<close>

definition AF_INET :: "16 word" where "AF_INET = 2"
definition AF_INET6 :: "16 word" where "AF_INET6 = 10"

text \<open>The inline helpers of skbuff.h: \<^verbatim>\<open>__skb_push\<close> moves \<^verbatim>\<open>data\<close> back by \<open>n\<close> bytes and
  \<^verbatim>\<open>__skb_pull\<close> moves it forward again.\<close>

definition skb_push :: "sk_buff \<Rightarrow> 32 word \<Rightarrow> sk_buff" where
  "skb_push skb n = skb\<lparr>skb_data := skb_data skb - uint n, skb_len := skb_len skb + n\<rparr>"

definition skb_pull :: "sk_buff \<Rightarrow> 32 word \<Rightarrow> sk_buff" where
  "skb_pull skb n = skb\<lparr>skb_len := skb_len skb - n, skb_data := skb_data skb + uint n\<rparr>"

text \<open>
  What a run function does besides returning: the read-side critical section, the load
  of the effective program of a cgroup, and the programs it runs, in order.
\<close>

datatype event =
  Rcu_read_lock
| Rcu_dereference cgroup_ptr bpf_attach_type
| Prog_run bpf_prog
| Rcu_read_unlock

text \<open>
  \<^verbatim>\<open>__cgroup_bpf_run_filter_skb\<close>. \<open>run\<close> is \<^verbatim>\<open>bpf_prog_run_save_cb\<close>: the value the program
  returns on the buffer and the buffer it leaves. The result is the \<^verbatim>\<open>int\<close> returned, the
  buffer after the call and the events; \<open>None\<close> stands for a socket whose cgroup is not a
  cgroup of the tree.
\<close>

definition cgroup_bpf_run_filter_skb ::
  "(bpf_prog \<Rightarrow> sk_buff \<Rightarrow> 32 word \<times> sk_buff) \<Rightarrow> kstate \<Rightarrow> sock option \<Rightarrow> sk_buff
     \<Rightarrow> bpf_attach_type \<Rightarrow> (int \<times> sk_buff \<times> event list) option" where
  "cgroup_bpf_run_filter_skb run s sk skb type =
     (case sk of
        None \<Rightarrow> Some (0, skb, [])
      | Some sock \<Rightarrow>
          if \<not> sk_fullsock sock then Some (0, skb, [])
          else if sk_family sock \<noteq> AF_INET \<and> sk_family sock \<noteq> AF_INET6 then Some (0, skb, [])
          else
            (case cgroup_at (root_cgrp s) (sk_cgrp sock) of
               None \<Rightarrow> None
             | Some c \<Rightarrow>
                 (case effective (bpf c) type of
                    None \<Rightarrow>
                      Some (0, skb,
                            [Rcu_read_lock, Rcu_dereference (sk_cgrp sock) type, Rcu_read_unlock])
                  | Some prg \<Rightarrow>
                      let offset = (word_of_int (skb_data skb - skb_network_header skb) :: 32 word);
                          save_sk = skb_sk skb;
                          skb1 = skb_push (skb\<lparr>skb_sk := Some sock\<rparr>) offset;
                          (r, skb2) = run prg skb1;
                          ret = (if r = 1 then 0 else - EPERM);
                          skb3 = (skb_pull skb2 offset)\<lparr>skb_sk := save_sk\<rparr>
                      in Some (ret, skb3,
                               [Rcu_read_lock, Rcu_dereference (sk_cgrp sock) type, Prog_run prg,
                                Rcu_read_unlock]))))"

text \<open>
  \<^verbatim>\<open>__cgroup_bpf_run_filter_sk\<close> and \<^verbatim>\<open>__cgroup_bpf_run_filter_sock_ops\<close>. \<open>run\<close> is
  \<^verbatim>\<open>BPF_PROG_RUN\<close> on the socket, respectively on the \<^verbatim>\<open>sock_ops\<close> argument.
\<close>

definition cgroup_bpf_run_filter_sk ::
  "(bpf_prog \<Rightarrow> sock \<Rightarrow> 32 word) \<Rightarrow> kstate \<Rightarrow> sock \<Rightarrow> bpf_attach_type
     \<Rightarrow> (int \<times> event list) option" where
  "cgroup_bpf_run_filter_sk run s sk type =
     (case cgroup_at (root_cgrp s) (sk_cgrp sk) of
        None \<Rightarrow> None
      | Some c \<Rightarrow>
          (case effective (bpf c) type of
             None \<Rightarrow> Some (0, [Rcu_read_lock, Rcu_dereference (sk_cgrp sk) type, Rcu_read_unlock])
           | Some prg \<Rightarrow>
               Some (if run prg sk = 1 then 0 else - EPERM,
                     [Rcu_read_lock, Rcu_dereference (sk_cgrp sk) type, Prog_run prg,
                      Rcu_read_unlock])))"

definition cgroup_bpf_run_filter_sock_ops ::
  "(bpf_prog \<Rightarrow> 'ops \<Rightarrow> 32 word) \<Rightarrow> kstate \<Rightarrow> sock \<Rightarrow> 'ops \<Rightarrow> bpf_attach_type
     \<Rightarrow> (int \<times> event list) option" where
  "cgroup_bpf_run_filter_sock_ops run s sk sock_ops type =
     (case cgroup_at (root_cgrp s) (sk_cgrp sk) of
        None \<Rightarrow> None
      | Some c \<Rightarrow>
          (case effective (bpf c) type of
             None \<Rightarrow> Some (0, [Rcu_read_lock, Rcu_dereference (sk_cgrp sk) type, Rcu_read_unlock])
           | Some prg \<Rightarrow>
               Some (if run prg sock_ops = 1 then 0 else - EPERM,
                     [Rcu_read_lock, Rcu_dereference (sk_cgrp sk) type, Prog_run prg,
                      Rcu_read_unlock])))"

text \<open>
  The effective snapshot of a cgroup as a sequence of programs, and the verdict of a
  sequence as the spec words it: the programs run in order, the first one that does not
  return 1 rejects and ends the run, and the run accepts when every program returned 1.
  The second component lists the programs that ran.
\<close>

definition chain_of :: "bpf_prog option \<Rightarrow> bpf_prog list" where
  "chain_of e = (case e of None \<Rightarrow> [] | Some p \<Rightarrow> [p])"

fun spec_run_chain :: "(bpf_prog \<Rightarrow> 32 word) \<Rightarrow> bpf_prog list \<Rightarrow> int \<times> bpf_prog list" where
  "spec_run_chain run [] = (0, [])"
| "spec_run_chain run (p # ps) =
     (if run p = 1 then (fst (spec_run_chain run ps), p # snd (spec_run_chain run ps))
      else (- EPERM, [p]))"

fun progs_run :: "event list \<Rightarrow> bpf_prog list" where
  "progs_run [] = []"
| "progs_run (Prog_run p # es) = p # progs_run es"
| "progs_run (_ # es) = progs_run es"

subsection \<open>prog_list_length, hierarchy_allows_attach\<close>

text \<open>
  Modelled from the spec: the flag bits \<^verbatim>\<open>BPF_F_ALLOW_OVERRIDE\<close> and \<^verbatim>\<open>BPF_F_ALLOW_MULTI\<close> are
  declared outside the sources. They are the two components of the spec's \<open>flags[T]\<close>:
  \<open>allow_multi\<close> is the multi bit, and \<open>disallow_override\<close> is the absence of the override
  bit.
\<close>

definition BPF_F_ALLOW_OVERRIDE :: "32 word" where "BPF_F_ALLOW_OVERRIDE = 1"
definition BPF_F_ALLOW_MULTI :: "32 word" where "BPF_F_ALLOW_MULTI = 2"

definition allow_multi :: "cgroup_bpf \<Rightarrow> bpf_attach_type \<Rightarrow> bool" where
  "allow_multi b type = (flags b type AND BPF_F_ALLOW_MULTI \<noteq> 0)"

definition flags_disallow_override :: "cgroup_bpf \<Rightarrow> bpf_attach_type \<Rightarrow> bool" where
  "flags_disallow_override b type = (flags b type AND BPF_F_ALLOW_OVERRIDE = 0)"

text \<open>The \<^verbatim>\<open>u32\<close> counter of lines 43-54 wraps at \<open>2 ^ 32\<close>.\<close>

definition prog_list_length :: "bpf_prog_list list \<Rightarrow> 32 word" where
  "prog_list_length head = fold (\<lambda>pl cnt. if pl_prog pl = None then cnt else cnt + 1) head 0"

text \<open>The programs of a list, entries without a program left out.\<close>

definition live :: "bpf_prog_list list \<Rightarrow> bpf_prog list" where
  "live head = List.map_filter pl_prog head"

text \<open>
  The \<^verbatim>\<open>do ... while (p)\<close> loop of lines 69-80, entered at the ancestor \<open>p\<close>.
  \<^verbatim>\<open>WARN_ON_ONCE(cnt > 1)\<close> only logs.
\<close>

function hierarchy_walk :: "cgroup \<Rightarrow> bpf_attach_type \<Rightarrow> cgroup_ptr \<Rightarrow> bool option" where
  "hierarchy_walk t type p =
     (case cgroup_at t p of
        None \<Rightarrow> None
      | Some pc \<Rightarrow>
          let flgs = flags (bpf pc) type in
          if flgs AND BPF_F_ALLOW_MULTI \<noteq> 0 then Some True
          else
            let cnt = prog_list_length (progs (bpf pc) type) in
            if cnt = 1 then Some (flgs AND BPF_F_ALLOW_OVERRIDE \<noteq> 0)
            else (case cgroup_parent p of
                    None \<Rightarrow> Some True
                  | Some p' \<Rightarrow> hierarchy_walk t type p'))"
  by pat_completeness auto
termination
  by (relation "measure (\<lambda>(t, type, p). length p)")
    (auto simp: cgroup_parent_def split: if_splits)

declare hierarchy_walk.simps [simp del]

definition hierarchy_allows_attach ::
  "cgroup \<Rightarrow> cgroup_ptr \<Rightarrow> bpf_attach_type \<Rightarrow> 32 word \<Rightarrow> bool option" where
  "hierarchy_allows_attach t cgrp type new_flags =
     (case cgroup_parent cgrp of
        None \<Rightarrow> Some True
      | Some p \<Rightarrow> hierarchy_walk t type p)"

text \<open>The ancestors of a cgroup, the parent first and the root last.\<close>

definition ancestors :: "cgroup_ptr \<Rightarrow> cgroup_ptr list" where
  "ancestors p = map (\<lambda>i. take i p) (rev [0..<length p])"

text \<open>
  The \<^verbatim>\<open>bpf\<close> members met on the way from a cgroup to the root: the cgroup's own, then
  its ancestors', the root's last. \<open>None\<close> when the pointer is not a cgroup of the tree.
\<close>

definition bpf_chain :: "cgroup \<Rightarrow> cgroup_ptr \<Rightarrow> cgroup_bpf list option" where
  "bpf_chain t p = those (map (bpf_at t) (p # ancestors p))"

text \<open>The loop of lines 69-80 on the list of the \<^verbatim>\<open>bpf\<close> members it visits.\<close>

fun walk_chain :: "bpf_attach_type \<Rightarrow> cgroup_bpf list \<Rightarrow> bool" where
  "walk_chain type [] = True"
| "walk_chain type (a # as) =
     (if flags a type AND BPF_F_ALLOW_MULTI \<noteq> 0 then True
      else if prog_list_length (progs a type) = 1
           then flags a type AND BPF_F_ALLOW_OVERRIDE \<noteq> 0
           else walk_chain type as)"

subsection \<open>compute_effective_progs\<close>

text \<open>
  The counting loop of lines 100-104. \<^verbatim>\<open>cnt\<close> is a 32-bit \<^verbatim>\<open>int\<close>, held as the word of
  its bits: adding the \<^verbatim>\<open>u32\<close> list length wraps at \<open>2 ^ 32\<close>, and \<open>sint\<close> reads the
  signed value.
\<close>

function count_loop ::
  "cgroup \<Rightarrow> bpf_attach_type \<Rightarrow> cgroup_ptr \<Rightarrow> 32 word \<Rightarrow> 32 word option" where
  "count_loop t type p cnt =
     (case cgroup_at t p of
        None \<Rightarrow> None
      | Some pc \<Rightarrow>
          let cnt' = (if cnt = 0 \<or> flags (bpf pc) type AND BPF_F_ALLOW_MULTI \<noteq> 0
                      then cnt + prog_list_length (progs (bpf pc) type) else cnt)
          in (case cgroup_parent p of
                None \<Rightarrow> Some cnt'
              | Some p' \<Rightarrow> count_loop t type p' cnt'))"
  by pat_completeness auto
termination
  by (relation "measure (\<lambda>(t, type, p, cnt). length p)")
    (auto simp: cgroup_parent_def split: if_splits)

declare count_loop.simps [simp del]

text \<open>
  \<^verbatim>\<open>list_for_each_entry\<close> of lines 115-120 over one list: every entry with a program is
  stored at index \<^verbatim>\<open>cnt\<close>, the signed value of the counter, which then grows by one and
  wraps after \<open>2 ^ 31 - 1\<close>. A store outside the array is \<open>None\<close>.
\<close>

fun fill_list ::
  "bpf_prog_list list \<Rightarrow> bpf_prog option list \<Rightarrow> 32 word
     \<Rightarrow> (bpf_prog option list \<times> 32 word) option" where
  "fill_list [] arr cnt = Some (arr, cnt)"
| "fill_list (pl # rest) arr cnt =
     (case pl_prog pl of
        None \<Rightarrow> fill_list rest arr cnt
      | Some prg \<Rightarrow>
          if 0 \<le> sint cnt \<and> nat (sint cnt) < length arr
          then fill_list rest (arr[nat (sint cnt) := Some prg]) (cnt + 1)
          else None)"

text \<open>The filling loop of lines 113-122.\<close>

function fill_loop ::
  "cgroup \<Rightarrow> bpf_attach_type \<Rightarrow> cgroup_ptr \<Rightarrow> bpf_prog option list \<Rightarrow> 32 word
     \<Rightarrow> (bpf_prog option list \<times> 32 word) option" where
  "fill_loop t type p arr cnt =
     (case cgroup_at t p of
        None \<Rightarrow> None
      | Some pc \<Rightarrow>
          (case (if cnt = 0 \<or> flags (bpf pc) type AND BPF_F_ALLOW_MULTI \<noteq> 0
                 then fill_list (progs (bpf pc) type) arr cnt else Some (arr, cnt)) of
             None \<Rightarrow> None
           | Some (arr', cnt') \<Rightarrow>
               (case cgroup_parent p of
                  None \<Rightarrow> Some (arr', cnt')
                | Some p' \<Rightarrow> fill_loop t type p' arr' cnt')))"
  by pat_completeness auto
termination
  by (relation "measure (\<lambda>(t, type, p, arr, cnt). length p)")
    (auto simp: cgroup_parent_def split: if_splits)

declare fill_loop.simps [simp del]

text \<open>
  Modelled from the spec: \<^verbatim>\<open>bpf_prog_array_alloc\<close> is not among the sources. It gives a
  freshly allocated array of exactly \<^verbatim>\<open>cnt\<close> empty slots, or fails; \<open>alloc_ok\<close> says
  whether an allocation for that count succeeds, and the count is read as the unsigned
  value of the 32 bits passed. \<open>array\<close> is what \<^verbatim>\<open>*array\<close> holds before the call, and the
  result is the \<^verbatim>\<open>int\<close> returned with what \<^verbatim>\<open>*array\<close> holds after it.
\<close>

definition compute_effective_progs ::
  "(32 word \<Rightarrow> bool) \<Rightarrow> cgroup \<Rightarrow> cgroup_ptr \<Rightarrow> bpf_attach_type \<Rightarrow> bpf_prog option list
     \<Rightarrow> (int \<times> bpf_prog option list) option" where
  "compute_effective_progs alloc_ok t cgrp type array =
     (case count_loop t type cgrp 0 of
        None \<Rightarrow> None
      | Some cnt \<Rightarrow>
          if \<not> alloc_ok cnt then Some (- ENOMEM, array)
          else
            (case fill_loop t type cgrp (replicate (unat cnt) None) 0 of
               None \<Rightarrow> None
             | Some (arr, cnt') \<Rightarrow> Some (0, arr)))"

text \<open>
  What the two loops collect from such a chain. \<open>e\<close> says that nothing has been collected
  so far (\<^verbatim>\<open>cnt == 0\<close>). A cgroup contributes its programs when nothing has been
  collected yet or when it has the multi bit; the walk goes on to the root either way.
\<close>

fun collected :: "bool \<Rightarrow> bpf_attach_type \<Rightarrow> cgroup_bpf list \<Rightarrow> bpf_prog list" where
  "collected e type [] = []"
| "collected e type (b # bs) =
     (if e \<or> allow_multi b type
      then live (progs b type) @ collected (e \<and> live (progs b type) = []) type bs
      else collected False type bs)"

text \<open>
  The chain as the spec words it: the node's own programs first, then the programs of its
  ancestors, nearest first, as long as they are multi-enabled, ending with the first
  ancestor that is not, this one included.
\<close>

fun spec_ancestor_progs :: "bpf_attach_type \<Rightarrow> cgroup_bpf list \<Rightarrow> bpf_prog list" where
  "spec_ancestor_progs type [] = []"
| "spec_ancestor_progs type (a # as) =
     live (progs a type) @ (if allow_multi a type then spec_ancestor_progs type as else [])"

fun spec_effective_chain :: "bpf_attach_type \<Rightarrow> cgroup_bpf list \<Rightarrow> bpf_prog list" where
  "spec_effective_chain type [] = []"
| "spec_effective_chain type (b # bs) = live (progs b type) @ spec_ancestor_progs type bs"

subsection \<open>Example states\<close>

definition bpf_empty :: cgroup_bpf where
  "bpf_empty = \<lparr>prog = (\<lambda>_. None), progs = (\<lambda>_. []), flags = (\<lambda>_. 0),
                effective = (\<lambda>_. None), disallow_override = (\<lambda>_. False)\<rparr>"

text \<open>A root with one child and one grandchild, nothing attached.\<close>

definition tree3 :: cgroup where
  "tree3 = Cgroup bpf_empty [Cgroup bpf_empty [Cgroup bpf_empty []]]"

definition state3 :: kstate where
  "state3 = \<lparr>root_cgrp = tree3, cgroup_bpf_enabled_key = 0, bpf_prog_put_log = []\<rparr>"

text \<open>
  A cgroup member with program \<open>p\<close> of its own for attach type 1, and one that only
  inherits \<open>p\<close> as its effective program; \<open>dis\<close> is the override flag.
\<close>

definition bpf_own :: "bpf_prog \<Rightarrow> bool \<Rightarrow> cgroup_bpf" where
  "bpf_own p dis =
     \<lparr>prog = (\<lambda>_. None)(1 := Some p), progs = (\<lambda>_. []), flags = (\<lambda>_. 0),
      effective = (\<lambda>_. None)(1 := Some p), disallow_override = (\<lambda>_. False)(1 := dis)\<rparr>"

definition bpf_inh :: "bpf_prog \<Rightarrow> bool \<Rightarrow> cgroup_bpf" where
  "bpf_inh p dis =
     \<lparr>prog = (\<lambda>_. None), progs = (\<lambda>_. []), flags = (\<lambda>_. 0),
      effective = (\<lambda>_. None)(1 := Some p), disallow_override = (\<lambda>_. False)(1 := dis)\<rparr>"

text \<open>
  A chain of five cgroups R, A, B, G, L, each the only child of the one before. It is
  the state after G attached program 3 (overridable), then A attached program 2 (not
  overridable), then R attached program 1 (overridable), all for attach type 1.
\<close>

definition cg_L :: cgroup where "cg_L = Cgroup (bpf_inh 3 False) []"
definition cg_G :: cgroup where "cg_G = Cgroup (bpf_own 3 False) [cg_L]"
definition cg_B :: cgroup where "cg_B = Cgroup (bpf_inh 2 True) [cg_G]"
definition cg_A :: cgroup where "cg_A = Cgroup (bpf_own 2 True) [cg_B]"

definition tree5 :: cgroup where
  "tree5 = Cgroup (bpf_own 1 False) [cg_A]"

definition state5 :: kstate where
  "state5 = \<lparr>root_cgrp = tree5, cgroup_bpf_enabled_key = 3, bpf_prog_put_log = []\<rparr>"

text \<open>
  A cgroup just created, with nothing of its own and nothing inherited yet, under a
  parent P that has program 2 attached, not overridable, below a root with program 1.
\<close>

definition cg_new :: cgroup where "cg_new = Cgroup bpf_empty []"
definition cg_P :: cgroup where "cg_P = Cgroup (bpf_own 2 True) [cg_new]"

definition stateN :: kstate where
  "stateN = \<lparr>root_cgrp = Cgroup (bpf_own 1 False) [cg_P],
              cgroup_bpf_enabled_key = 2, bpf_prog_put_log = []\<rparr>"

text \<open>
  Two sockets in cgroup A of \<open>state5\<close>, whose effective program for attach type 1 is
  program 2: a full socket of family 1 (\<^verbatim>\<open>AF_UNIX\<close>) and a full \<^verbatim>\<open>AF_INET\<close> socket. A
  buffer, a \<^verbatim>\<open>sock_ops\<close> argument, and programs that return 0 whatever they are run on.
\<close>

definition sock_unix :: sock where
  "sock_unix = \<lparr>sk_family = 1, sk_fullsock = True, sk_cgrp = [0]\<rparr>"

definition sock_inet :: sock where
  "sock_inet = \<lparr>sk_family = AF_INET, sk_fullsock = True, sk_cgrp = [0]\<rparr>"

definition skb0 :: sk_buff where
  "skb0 = \<lparr>skb_sk = None, skb_data = 64, skb_len = 100, skb_network_header = 50\<rparr>"

definition verdict_zero :: "bpf_prog \<Rightarrow> 32 word" where
  "verdict_zero p = 0"

definition run_reject_cb :: "bpf_prog \<Rightarrow> sk_buff \<Rightarrow> 32 word \<times> sk_buff" where
  "run_reject_cb p skb = (verdict_zero p, skb)"

definition run_reject :: "bpf_prog \<Rightarrow> 'a \<Rightarrow> 32 word" where
  "run_reject p x = verdict_zero p"

text \<open>An allocator that never fails.\<close>

definition alloc_always :: "32 word \<Rightarrow> bool" where
  "alloc_always n = True"

text \<open>
  A chain of three cgroups with attach lists for type 1: the root G has the multi bit and
  program 3, its child A has the override bit and program 2, and A's child N has the
  override bit, program 1 and an entry without program. And a root D with neither bit
  and program 4, above an empty child.
\<close>

definition bpf_lists :: "32 word \<Rightarrow> bpf_prog_list list \<Rightarrow> cgroup_bpf" where
  "bpf_lists f ps =
     \<lparr>prog = (\<lambda>_. None), progs = (\<lambda>_. [])(1 := ps), flags = (\<lambda>_. 0)(1 := f),
      effective = (\<lambda>_. None), disallow_override = (\<lambda>_. False)\<rparr>"

definition bG :: cgroup_bpf where "bG = bpf_lists BPF_F_ALLOW_MULTI [\<lparr>pl_prog = Some 3\<rparr>]"
definition bA :: cgroup_bpf where "bA = bpf_lists BPF_F_ALLOW_OVERRIDE [\<lparr>pl_prog = Some 2\<rparr>]"
definition bN :: cgroup_bpf where
  "bN = bpf_lists BPF_F_ALLOW_OVERRIDE [\<lparr>pl_prog = Some 1\<rparr>, \<lparr>pl_prog = None\<rparr>]"
definition bD :: cgroup_bpf where "bD = bpf_lists 0 [\<lparr>pl_prog = Some 4\<rparr>]"

definition treeM :: cgroup where
  "treeM = Cgroup bG [Cgroup bA [Cgroup bN []]]"

definition treeD :: cgroup where
  "treeD = Cgroup bD [Cgroup bpf_empty []]"

text \<open>
  Scenario B on \<open>state3\<close>: the state after the root attached program 1, and the state
  after its child then attached program 2, both overridable and for attach type 1.
\<close>

definition stateB1 :: kstate where
  "stateB1 =
     \<lparr>root_cgrp = Cgroup (bpf_own 1 False) [Cgroup (bpf_inh 1 False) [Cgroup (bpf_inh 1 False) []]],
      cgroup_bpf_enabled_key = 1, bpf_prog_put_log = []\<rparr>"

definition cg_C :: cgroup where
  "cg_C = Cgroup (bpf_own 2 False) [Cgroup (bpf_inh 2 False) []]"

definition stateB2 :: kstate where
  "stateB2 =
     \<lparr>root_cgrp = Cgroup (bpf_own 1 False) [cg_C],
      cgroup_bpf_enabled_key = 2, bpf_prog_put_log = []\<rparr>"

section \<open>The tree\<close>

lemma cgroup_at_append:
  "cgroup_at t (p @ q) = (case cgroup_at t p of None \<Rightarrow> None | Some c \<Rightarrow> cgroup_at c q)"
proof (induction p arbitrary: t)
  case Nil
  show ?case by simp
next
  case (Cons i p)
  show ?case by (cases t) (simp add: Cons.IH)
qed

lemma cgroup_at_modify_at:
  "cgroup_at t p = Some c \<Longrightarrow> cgroup_at (modify_at p f t) p = Some (f c)"
proof (induction p arbitrary: t)
  case Nil
  then show ?case by simp
next
  case (Cons i p)
  then show ?case by (cases t) (auto split: if_splits)
qed

lemma cgroup_at_modify_at_below:
  "cgroup_at t p = Some c \<Longrightarrow> cgroup_at (modify_at p f t) (p @ q) = cgroup_at (f c) q"
  by (simp add: cgroup_at_append cgroup_at_modify_at)

text \<open>A cgroup outside the subtree of \<open>p\<close> keeps its \<^verbatim>\<open>bpf\<close> member.\<close>

lemma bpf_modify_at_outside:
  "\<not> prefix p q \<Longrightarrow>
     map_option bpf (cgroup_at (modify_at p f t) q) = map_option bpf (cgroup_at t q)"
proof (induction p arbitrary: q t)
  case Nil
  then show ?case by simp
next
  case (Cons i p)
  obtain b cs where t: "t = Cgroup b cs" by (cases t)
  show ?case
  proof (cases q)
    case Nil
    then show ?thesis by (simp add: t)
  next
    case (Cons j q')
    show ?thesis
    proof (cases "j = i")
      case True
      with Cons.prems Cons have "\<not> prefix p q'" by simp
      from Cons.IH [OF this] show ?thesis using True Cons by (simp add: t)
    next
      case False
      then show ?thesis using Cons by (simp add: t)
    qed
  qed
qed

lemma cgroup_at_set_prog:
  "q \<noteq> [] \<Longrightarrow> cgroup_at (set_prog type prg c) q = cgroup_at c q"
  by (cases c; cases q) simp_all

lemma bpf_set_prog: "prog (bpf (set_prog type prg c)) type = prg"
  by (cases c) simp

lemma cgroup_at_map_bpf: "q \<noteq> [] \<Longrightarrow> cgroup_at (map_bpf f c) q = cgroup_at c q"
  by (cases c; cases q) simp_all

section \<open>The walk over the descendants\<close>

lemma update_descendants_skipped:
  "cgroup_at c q = Some d \<Longrightarrow> prog (bpf d) type \<noteq> None \<Longrightarrow>
     cgroup_at (update_descendants type eff ov False c) q = Some d"
proof (induction q arbitrary: c)
  case Nil
  then show ?case by (cases c) auto
next
  case (Cons i q)
  then show ?case by (cases c) (auto split: if_splits)
qed

lemma update_descendants_skipped_below:
  "q \<noteq> [] \<Longrightarrow> cgroup_at c q = Some d \<Longrightarrow> prog (bpf d) type \<noteq> None \<Longrightarrow>
     cgroup_at (update_descendants type eff ov True c) q = Some d"
  by (cases c; cases q) (auto split: if_splits simp: update_descendants_skipped)

lemma reached_cgroup_at: "reached type c q \<Longrightarrow> \<exists>d. cgroup_at c q = Some d"
proof (induction q arbitrary: c)
  case Nil
  show ?case by simp
next
  case (Cons i q)
  then show ?case by (cases c) auto
qed

text \<open>A descendant that is not reached is below a skipped cgroup, or is one, and is as before.\<close>

lemma update_descendants_not_reached:
  "cgroup_at c q = Some d \<Longrightarrow> \<not> reached type c q \<Longrightarrow>
     cgroup_at (update_descendants type eff ov r c) q = Some d"
proof (induction q arbitrary: c r)
  case Nil
  then show ?case by simp
next
  case (Cons i q)
  obtain b cs where c: "c = Cgroup b cs" by (cases c)
  from Cons.prems c have i: "i < length cs" and d: "cgroup_at (cs ! i) q = Some d"
    by (auto split: if_splits)
  show ?case
  proof (cases "prog (bpf (cs ! i)) type = None")
    case True
    with Cons.prems(2) c i have "\<not> reached type (cs ! i) q" by simp
    from Cons.IH [OF d this] show ?thesis using i d by (simp add: c)
  next
    case False
    obtain b' cs' where ci: "cs ! i = Cgroup b' cs'" by (cases "cs ! i")
    with False have "update_descendants type eff ov False (cs ! i) = cs ! i" by simp
    then show ?thesis using i d by (simp add: c)
  qed
qed

lemma reached_set_prog: "reached type (set_prog type' prg c) q = reached type c q"
  by (cases c; cases q) simp_all

lemma reached_butlast: "reached type c q \<Longrightarrow> reached type c (butlast q)"
proof (induction q arbitrary: c)
  case Nil
  show ?case by simp
next
  case (Cons i q)
  then show ?case by (cases c) auto
qed

lemma published_effective [simp]: "effective (published type eff ov b) type = eff"
  by (simp add: published_def)

lemma published_prog [simp]: "prog (published type eff ov b) = prog b"
  by (simp add: published_def)

lemma update_descendants_reached:
  "r \<or> prog (bpf c) type = None \<Longrightarrow> reached type c q \<Longrightarrow> cgroup_at c q = Some d \<Longrightarrow>
     map_option bpf (cgroup_at (update_descendants type eff ov r c) q)
       = Some (published type eff ov (bpf d))"
proof (induction q arbitrary: c r)
  case Nil
  then show ?case by (cases c) (auto simp: published_def)
next
  case (Cons i q)
  obtain b cs where c: "c = Cgroup b cs" by (cases c)
  from Cons.prems c have i: "i < length cs" and np: "prog (bpf (cs ! i)) type = None"
    and re: "reached type (cs ! i) q" and at: "cgroup_at (cs ! i) q = Some d"
    by auto
  have "map_option bpf (cgroup_at (update_descendants type eff ov False (cs ! i)) q)
          = Some (published type eff ov (bpf d))"
    using Cons.IH [of False "cs ! i"] np re at by simp
  moreover have "cgroup_at (update_descendants type eff ov r c) (i # q)
          = cgroup_at (update_descendants type eff ov False (cs ! i)) q"
    using Cons.prems(1) i by (auto simp: c)
  ultimately show ?case by simp
qed

section \<open>A successful __cgroup_bpf_update\<close>

lemma cgroup_bpf_update_success:
  assumes "cgroup_bpf_update s cgrp parent prg type nov = Some (0, s')"
  shows "\<exists>c ov0 eff0.
    cgroup_at (root_cgrp s) cgrp = Some c \<and>
    from_parent s parent type = Some (ov0, eff0) \<and>
    (prg \<noteq> None \<or> prog (bpf c) type \<noteq> None) \<and>
    root_cgrp s' =
       modify_at cgrp
         (\<lambda>c. update_descendants type (if prg \<noteq> None then prg else eff0)
                (if prg \<noteq> None then nov else ov0) True (set_prog type prg c))
         (root_cgrp s)"
proof -
  from assms obtain c where c: "cgroup_at (root_cgrp s) cgrp = Some c"
    by (cases "cgroup_at (root_cgrp s) cgrp") (simp_all add: cgroup_bpf_update_def)
  from assms c obtain ov0 eff0 where fp: "from_parent s parent type = Some (ov0, eff0)"
    by (cases "from_parent s parent type") (auto simp: cgroup_bpf_update_def)
  from assms have "prg \<noteq> None \<or> prog (bpf c) type \<noteq> None"
    by (auto simp: cgroup_bpf_update_def c fp Let_def EPERM_def ENOENT_def split: if_splits)
  moreover from assms have "root_cgrp s' =
       modify_at cgrp
         (\<lambda>c. update_descendants type (if prg \<noteq> None then prg else eff0)
                (if prg \<noteq> None then nov else ov0) True (set_prog type prg c))
         (root_cgrp s)"
    by (cases "prog (bpf c) type")
      (auto simp: cgroup_bpf_update_def c fp Let_def EPERM_def ENOENT_def split: if_splits)
  ultimately show ?thesis using c fp by blast
qed

text \<open>What a successful update leaves in a cgroup its walk reached.\<close>

lemma update_reached_bpf:
  assumes up: "cgroup_bpf_update s n parent prg type nov = Some (0, s')"
    and c: "cgroup_at (root_cgrp s) n = Some c"
    and fp: "from_parent s parent type = Some (ov0, eff0)"
    and re: "reached type c q"
    and d: "cgroup_at c q = Some d"
  shows "map_option bpf (cgroup_at (root_cgrp s') (n @ q)) =
     Some (published type (if prg \<noteq> None then prg else eff0) (if prg \<noteq> None then nov else ov0)
            (bpf (if q = [] then set_prog type prg d else d)))"
proof -
  let ?eff = "if prg \<noteq> None then prg else eff0"
  let ?ov = "if prg \<noteq> None then nov else ov0"
  from cgroup_bpf_update_success [OF up] c fp
  have root: "root_cgrp s' =
       modify_at n (\<lambda>c. update_descendants type ?eff ?ov True (set_prog type prg c)) (root_cgrp s)"
    by auto
  have at: "cgroup_at (root_cgrp s') (n @ q)
      = cgroup_at (update_descendants type ?eff ?ov True (set_prog type prg c)) q"
    unfolding root by (rule cgroup_at_modify_at_below [OF c])
  have re': "reached type (set_prog type prg c) q"
    using re by (simp add: reached_set_prog)
  have d': "cgroup_at (set_prog type prg c) q = Some (if q = [] then set_prog type prg d else d)"
    using d by (cases "q = []") (simp_all add: cgroup_at_set_prog)
  show ?thesis
    unfolding at
    by (rule update_descendants_reached [OF _ re' d']) simp
qed

section \<open>cgroup_bpf_inherit\<close>

lemma bpf_at_modify_map_bpf:
  "bpf_at (modify_at p (map_bpf f) t) q =
     (if q = p then map_option f (bpf_at t p) else bpf_at t q)"
proof (cases "prefix p q")
  case False
  then have "q \<noteq> p" by auto
  with False show ?thesis
    by (simp add: bpf_at_def bpf_modify_at_outside)
next
  case True
  then obtain r where q: "q = p @ r" by (auto simp: prefix_def)
  show ?thesis
  proof (cases "cgroup_at t p")
    case None
    then have "modify_at p (map_bpf f) t = t"
    proof (induction p arbitrary: t)
      case Nil
      then show ?case by simp
    next
      case (Cons i p)
      then show ?case by (cases t) (auto split: if_splits simp: list_update_same_conv)
    qed
    with None show ?thesis by (simp add: bpf_at_def q cgroup_at_append)
  next
    case (Some c)
    show ?thesis
    proof (cases "r = []")
      case True
      then show ?thesis
        using Some by (cases c) (simp add: bpf_at_def q cgroup_at_modify_at)
    next
      case False
      have "cgroup_at (modify_at p (map_bpf f) t) (p @ r) = cgroup_at c r"
        using cgroup_at_modify_at_below [OF Some, of "map_bpf f" r] False
        by (simp add: cgroup_at_map_bpf)
      moreover have "cgroup_at t (p @ r) = cgroup_at c r"
        by (simp add: cgroup_at_append Some)
      ultimately show ?thesis
        using False by (simp add: bpf_at_def q)
    qed
  qed
qed

lemma inh_same: "inh type b b = b"
  by (simp add: inh_def)

lemma inherit_type_step:
  assumes "bpf_at t cgrp = Some b" and "bpf_at t parent = Some pb"
  shows "bpf_at (inherit_type cgrp parent type t) cgrp = Some (inh type pb b)"
    and "bpf_at (inherit_type cgrp parent type t) parent = Some pb"
proof -
  obtain pc where pc: "cgroup_at t parent = Some pc" "bpf pc = pb"
    using assms(2) by (auto simp: bpf_at_def)
  let ?t1 = "modify_at cgrp (map_bpf (\<lambda>b. b\<lparr>effective := (effective b)(type := effective pb type)\<rparr>)) t"
  have t1c: "bpf_at ?t1 cgrp = Some (b\<lparr>effective := (effective b)(type := effective pb type)\<rparr>)"
    using assms(1) by (simp add: bpf_at_modify_map_bpf)
  have t1p: "bpf_at ?t1 parent = Some (if parent = cgrp then b\<lparr>effective := (effective b)(type := effective pb type)\<rparr> else pb)"
    using assms by (simp add: bpf_at_modify_map_bpf)
  then obtain pc1 where pc1: "cgroup_at ?t1 parent = Some pc1"
    "bpf pc1 = (if parent = cgrp then b\<lparr>effective := (effective b)(type := effective pb type)\<rparr> else pb)"
    by (auto simp: bpf_at_def)
  have dis: "disallow_override (bpf pc1) type = disallow_override pb type"
    using pc1(2) assms by auto
  have step: "inherit_type cgrp parent type t =
      modify_at cgrp (map_bpf (\<lambda>b. b\<lparr>disallow_override :=
                                 (disallow_override b)(type := disallow_override pb type)\<rparr>)) ?t1"
    by (simp add: inherit_type_def pc pc1(1) dis Let_def)
  have outer: "bpf_at (modify_at cgrp (map_bpf g) ?t1) q =
      (if q = cgrp then map_option g (bpf_at ?t1 cgrp) else bpf_at ?t1 q)" for g q
    by (rule bpf_at_modify_map_bpf)
  show "bpf_at (inherit_type cgrp parent type t) cgrp = Some (inh type pb b)"
    unfolding step outer t1c by (simp add: inh_def)
  show "bpf_at (inherit_type cgrp parent type t) parent = Some pb"
  proof (cases "parent = cgrp")
    case True
    with assms have "pb = b" by simp
    then show ?thesis
      unfolding step outer t1c using True by simp
  next
    case False
    then show ?thesis
      unfolding step outer t1p by simp
  qed
qed

lemma inherit_loop:
  assumes "bpf_at t cgrp = Some b" and "bpf_at t parent = Some pb"
  shows "\<exists>b'. bpf_at (fold (inherit_type cgrp parent) [0..<nr] t) cgrp = Some b' \<and>
           bpf_at (fold (inherit_type cgrp parent) [0..<nr] t) parent = Some pb \<and>
           (\<forall>type < nr. effective b' type = effective pb type \<and>
                        disallow_override b' type = disallow_override pb type)"
proof (induction nr)
  case 0
  show ?case using assms by simp
next
  case (Suc nr)
  then obtain b' where
    1: "bpf_at (fold (inherit_type cgrp parent) [0..<nr] t) cgrp = Some b'" and
    2: "bpf_at (fold (inherit_type cgrp parent) [0..<nr] t) parent = Some pb" and
    3: "\<forall>type < nr. effective b' type = effective pb type \<and>
                        disallow_override b' type = disallow_override pb type"
    by blast
  have "\<forall>type < Suc nr. effective (inh nr pb b') type = effective pb type \<and>
                        disallow_override (inh nr pb b') type = disallow_override pb type"
    using 3 by (auto simp: inh_def less_Suc_eq)
  then show ?case
    using inherit_type_step [OF 1 2, of nr] by simp
qed



section \<open>Inheritance after an update\<close>

lemma update_inherits_parent:
  assumes up: "cgroup_bpf_update s n (cgroup_parent n) prg type nov = Some (0, s')"
    and c: "cgroup_at (root_cgrp s) n = Some c"
    and re: "reached type c q"
    and d': "cgroup_at (root_cgrp s') (n @ q) = Some d'"
    and np: "prog (bpf d') type = None"
    and pp: "cgroup_parent (n @ q) = Some pp"
    and pd': "cgroup_at (root_cgrp s') pp = Some pd'"
  shows "effective (bpf d') type = effective (bpf pd') type"
proof -
  from cgroup_bpf_update_success [OF up] obtain ov0 eff0 where
    fp: "from_parent s (cgroup_parent n) type = Some (ov0, eff0)" and
    root: "root_cgrp s' =
       modify_at n
         (\<lambda>c. update_descendants type (if prg \<noteq> None then prg else eff0)
                (if prg \<noteq> None then nov else ov0) True (set_prog type prg c))
         (root_cgrp s)"
    by blast
  let ?eff = "if prg \<noteq> None then prg else eff0"
  let ?ov = "if prg \<noteq> None then nov else ov0"
  from reached_cgroup_at [OF re] obtain d where d: "cgroup_at c q = Some d" by blast
  from update_reached_bpf [OF up c fp re d] d'
  have bd': "bpf d' = published type ?eff ?ov (bpf (if q = [] then set_prog type prg d else d))"
    by simp
  then have e: "effective (bpf d') type = ?eff" by simp
  show ?thesis
  proof (cases "q = []")
    case True
    from bd' True np have prg: "prg = None" by (simp add: bpf_set_prog)
    from pp True have n: "n \<noteq> []" and ppn: "pp = butlast n"
      by (auto simp: cgroup_parent_def split: if_splits)
    from fp n ppn obtain pc where pc: "cgroup_at (root_cgrp s) pp = Some pc"
      and eff0: "eff0 = effective (bpf pc) type"
      by (auto simp: from_parent_def cgroup_parent_def split: option.splits)
    have "\<not> prefix n pp"
    proof
      assume "prefix n pp"
      then have "length n \<le> length pp" by (rule prefix_length_le)
      with n ppn show False by (cases n rule: rev_cases) simp_all
    qed
    from bpf_modify_at_outside [OF this] have "map_option bpf (cgroup_at (root_cgrp s') pp)
        = map_option bpf (cgroup_at (root_cgrp s) pp)"
      unfolding root .
    with pc pd' have "bpf pd' = bpf pc" by simp
    with e prg eff0 show ?thesis by simp
  next
    case False
    with pp have ppq: "pp = n @ butlast q"
      by (auto simp: cgroup_parent_def butlast_append split: if_splits)
    from reached_cgroup_at [OF reached_butlast [OF re]] obtain d2 where
      d2: "cgroup_at c (butlast q) = Some d2" by blast
    from update_reached_bpf [OF up c fp reached_butlast [OF re] d2] pd' ppq
    have "bpf pd' = published type ?eff ?ov (bpf (if butlast q = [] then set_prog type prg d2 else d2))"
      by simp
    then have "effective (bpf pd') type = ?eff" by simp
    with e show ?thesis by simp
  qed
qed

lemma inherit_copies_parent:
  assumes "cgroup_at (root_cgrp s) cgrp = Some c"
    and "cgroup_at (root_cgrp s) parent = Some pc"
  shows "\<exists>s' c'. cgroup_bpf_inherit nr s cgrp parent = Some s' \<and>
     cgroup_at (root_cgrp s') cgrp = Some c' \<and>
     (\<forall>type < nr. effective (bpf c') type = effective (bpf pc) type \<and>
                  disallow_override (bpf c') type = disallow_override (bpf pc) type)"
proof -
  let ?s' = "s\<lparr>root_cgrp := fold (inherit_type cgrp parent) [0..<nr] (root_cgrp s)\<rparr>"
  have run: "cgroup_bpf_inherit nr s cgrp parent = Some ?s'"
    using assms by (simp add: cgroup_bpf_inherit_def)
  have 1: "bpf_at (root_cgrp s) cgrp = Some (bpf c)" using assms(1) by (simp add: bpf_at_def)
  have 2: "bpf_at (root_cgrp s) parent = Some (bpf pc)" using assms(2) by (simp add: bpf_at_def)
  from inherit_loop [OF 1 2, of nr] obtain c' where
    "cgroup_at (root_cgrp ?s') cgrp = Some c'"
    "\<forall>type < nr. effective (bpf c') type = effective (bpf pc) type \<and>
                  disallow_override (bpf c') type = disallow_override (bpf pc) type"
    by (auto simp: bpf_at_def)
  with run show ?thesis by blast
qed


section \<open>Walks towards the root\<close>

lemma ancestors_Nil [simp]: "ancestors [] = []"
  by (simp add: ancestors_def)

lemma ancestors_snoc: "ancestors (q @ [x]) = q # ancestors q"
  by (simp add: ancestors_def)

lemma ancestors_unfold: "p \<noteq> [] \<Longrightarrow> ancestors p = butlast p # ancestors (butlast p)"
  by (cases p rule: rev_cases) (simp_all add: ancestors_snoc)

lemma bpf_chain_unfold:
  "bpf_chain t p =
     (case bpf_at t p of
        None \<Rightarrow> None
      | Some b \<Rightarrow> if p = [] then Some [b] else map_option ((#) b) (bpf_chain t (butlast p)))"
proof (cases "p = []")
  case True
  then show ?thesis by (simp add: bpf_chain_def split: option.splits)
next
  case False
  then show ?thesis
    by (simp add: bpf_chain_def ancestors_unfold [OF False] split: option.splits)
qed

lemma bpf_chain_cases:
  assumes "bpf_chain t p = Some bs"
  obtains b where "p = []" "bs = [b]" "cgroup_at t p \<noteq> None" "bpf_at t p = Some b"
  | b bs' where "p \<noteq> []" "bs = b # bs'" "bpf_at t p = Some b"
      "bpf_chain t (butlast p) = Some bs'"
  using assms
  by (subst (asm) bpf_chain_unfold) (auto simp: bpf_at_def split: option.splits if_splits)

lemma prog_list_length_fold:
  "fold (\<lambda>pl cnt. if pl_prog pl = None then cnt else cnt + 1) xs (acc :: 32 word)
     = acc + of_nat (length (live xs))"
  by (induction xs arbitrary: acc) (auto simp: live_def List.map_filter_simps)

lemma prog_list_length_live: "prog_list_length xs = of_nat (length (live xs))"
  by (simp add: prog_list_length_def prog_list_length_fold)

lemma word32_of_nat_eq_0:
  "n < 2 ^ 32 \<Longrightarrow> ((of_nat n :: 32 word) = 0) = (n = 0)"
proof
  assume n: "n < 2 ^ 32" and z: "(of_nat n :: 32 word) = 0"
  have "unat (of_nat n :: 32 word) = n"
    using n by (simp add: unsigned_of_nat take_bit_nat_eq_self)
  with z show "n = 0" by simp
next
  assume "n = 0"
  then show "(of_nat n :: 32 word) = 0" by simp
qed

lemma sint32_of_nat:
  "n < 2 ^ 31 \<Longrightarrow> sint (of_nat n :: 32 word) = int n"
  by (simp add: signed_of_nat signed_take_bit_int_eq_self)

lemma unat32_of_nat:
  "n < 2 ^ 32 \<Longrightarrow> unat (of_nat n :: 32 word) = n"
  by (simp add: unsigned_of_nat take_bit_nat_eq_self)

lemma prog_list_length_one: "length (live xs) = 1 \<Longrightarrow> prog_list_length xs = 1"
  by (simp add: prog_list_length_live)

lemma prog_list_length_zero: "live xs = [] \<Longrightarrow> prog_list_length xs = 0"
  by (simp add: prog_list_length_live)

lemma bpf_at_cgroup_at: "bpf_at t p = Some b \<Longrightarrow> \<exists>c. cgroup_at t p = Some c \<and> bpf c = b"
  by (auto simp: bpf_at_def)

lemma hierarchy_walk_chain:
  "bpf_chain t p = Some bs \<Longrightarrow> hierarchy_walk t type p = Some (walk_chain type bs)"
proof (induction bs arbitrary: p)
  case Nil
  then show ?case by (auto elim: bpf_chain_cases)
next
  case (Cons b bs)
  from Cons.prems show ?case
  proof (cases rule: bpf_chain_cases)
    case (1 b')
    then obtain c where "cgroup_at t p = Some c" "bpf c = b" "bs = []"
      by (auto dest: bpf_at_cgroup_at)
    with 1 show ?thesis
      by (subst hierarchy_walk.simps) (simp add: cgroup_parent_def Let_def)
  next
    case (2 b' bs')
    then obtain c where c: "cgroup_at t p = Some c" "bpf c = b" and bs: "bs' = bs"
      by (auto dest: bpf_at_cgroup_at)
    from Cons.IH [of "butlast p"] 2 bs
    have "hierarchy_walk t type (butlast p) = Some (walk_chain type bs)" by simp
    with 2 c show ?thesis
      by (subst hierarchy_walk.simps) (simp add: cgroup_parent_def Let_def)
  qed
qed

lemma hierarchy_allows_attach_chain:
  assumes "bpf_chain t cgrp = Some (b # bs)"
  shows "hierarchy_allows_attach t cgrp type new_flags = Some (walk_chain type bs)"
  using assms
proof (cases rule: bpf_chain_cases)
  case (1 b')
  then show ?thesis by (simp add: hierarchy_allows_attach_def cgroup_parent_def)
next
  case (2 b' bs')
  then show ?thesis
    by (simp add: hierarchy_allows_attach_def cgroup_parent_def hierarchy_walk_chain)
qed

lemma walk_chain_pass:
  "\<forall>x \<in> set near. \<not> allow_multi x type \<and> live (progs x type) = [] \<Longrightarrow>
     walk_chain type (near @ rest) = walk_chain type rest"
  by (induction near) (auto simp: allow_multi_def prog_list_length_zero)

section \<open>The two loops of compute_effective_progs\<close>

lemma count_loop_unfold:
  assumes "bpf_at t p = Some b"
  shows "count_loop t type p cnt =
       (if p = []
        then Some (if cnt = 0 \<or> flags b type AND BPF_F_ALLOW_MULTI \<noteq> 0
                   then cnt + prog_list_length (progs b type) else cnt)
        else count_loop t type (butlast p)
               (if cnt = 0 \<or> flags b type AND BPF_F_ALLOW_MULTI \<noteq> 0
                then cnt + prog_list_length (progs b type) else cnt))"
proof -
  from assms obtain c where c: "cgroup_at t p = Some c" "bpf c = b"
    by (auto simp: bpf_at_def)
  show ?thesis
    by (subst count_loop.simps [of t type p cnt])
      (simp add: c cgroup_parent_def Let_def)
qed

lemma count_loop_chain:
  "bpf_chain t p = Some bs \<Longrightarrow> n + length (collected (n = 0) type bs) < 2 ^ 31 \<Longrightarrow>
     count_loop t type p (of_nat n) = Some (of_nat (n + length (collected (n = 0) type bs)))"
proof (induction bs arbitrary: p n)
  case Nil
  then show ?case by (auto elim: bpf_chain_cases)
next
  case (Cons b bs)
  let ?add = "n = 0 \<or> flags b type AND BPF_F_ALLOW_MULTI \<noteq> 0"
  let ?lb = "live (progs b type)"
  let ?n1 = "if ?add then n + length ?lb else n"
  let ?rest = "collected (?n1 = 0) type bs"
  have coll: "collected (n = 0) type (b # bs) = (if ?add then ?lb else []) @ ?rest"
    by (auto simp: allow_multi_def)
  have total: "?n1 + length ?rest = n + length (collected (n = 0) type (b # bs))"
    unfolding coll by simp
  with Cons.prems(2) have bound: "?n1 + length ?rest < 2 ^ 31" by simp
  from Cons.prems(2) have "n < 2 ^ 32" by simp
  then have test: "((of_nat n :: 32 word) = 0) = (n = 0)" by (rule word32_of_nat_eq_0)
  have step: "(if (of_nat n :: 32 word) = 0 \<or> flags b type AND BPF_F_ALLOW_MULTI \<noteq> 0
               then of_nat n + prog_list_length (progs b type) else of_nat n)
              = of_nat ?n1"
    unfolding test by (simp add: prog_list_length_live)
  from Cons.prems(1) show ?case
  proof (cases rule: bpf_chain_cases)
    case (1 b')
    then obtain c where c: "cgroup_at t p = Some c" "bpf c = b" and bs: "bs = []"
      by (auto dest: bpf_at_cgroup_at)
    have bat: "bpf_at t p = Some b" using 1 by simp
    have "count_loop t type p (of_nat n) = Some (of_nat ?n1)"
      by (subst count_loop_unfold [OF bat]) (simp only: step, simp add: 1(1))
    also have "of_nat ?n1 = (of_nat (?n1 + length ?rest) :: 32 word)"
      using bs by simp
    finally show ?thesis unfolding total .
  next
    case (2 b' bs')
    then obtain c where c: "cgroup_at t p = Some c" "bpf c = b" and bs: "bs' = bs"
      by (auto dest: bpf_at_cgroup_at)
    have ch: "bpf_chain t (butlast p) = Some bs" using 2 bs by simp
    have bat: "bpf_at t p = Some b" using 2 by simp
    have "count_loop t type p (of_nat n) = count_loop t type (butlast p) (of_nat ?n1)"
      by (subst count_loop_unfold [OF bat]) (simp only: step, simp add: 2(1))
    also have "\<dots> = Some (of_nat (?n1 + length ?rest))"
      by (rule Cons.IH [OF ch bound])
    finally show ?thesis unfolding total .
  qed
qed

lemma fill_list_live:
  "n + length (live xs) \<le> length arr \<Longrightarrow> n + length (live xs) < 2 ^ 31 \<Longrightarrow>
     fill_list xs arr (of_nat n) =
       Some (take n arr @ map Some (live xs) @ drop (n + length (live xs)) arr,
             of_nat (n + length (live xs)))"
proof (induction xs arbitrary: arr n)
  case Nil
  then show ?case by (simp add: live_def)
next
  case (Cons pl xs)
  show ?case
  proof (cases "pl_prog pl")
    case None
    then have "live (pl # xs) = live xs" by (simp add: live_def List.map_filter_simps)
    with Cons None show ?thesis by simp
  next
    case (Some prg)
    then have l: "live (pl # xs) = prg # live xs" by (simp add: live_def List.map_filter_simps)
    with Cons.prems have n: "n < length arr" and
      room: "Suc n + length (live xs) \<le> length (arr[n := Some prg])" and
      small: "Suc n + length (live xs) < 2 ^ 31" by simp_all
    from small have "n < 2 ^ 31" by simp
    then have idx: "sint (of_nat n :: 32 word) = int n" by (rule sint32_of_nat)
    have "fill_list (pl # xs) arr (of_nat n) = fill_list xs (arr[n := Some prg]) (of_nat (Suc n))"
      using Some n by (simp add: idx add.commute)
    also have "\<dots> = Some (take (Suc n) (arr[n := Some prg]) @ map Some (live xs)
                        @ drop (Suc n + length (live xs)) (arr[n := Some prg]),
                      of_nat (Suc n + length (live xs)))"
      by (rule Cons.IH [OF room small])
    also have "take (Suc n) (arr[n := Some prg]) = take n arr @ [Some prg]"
      using n by (simp add: take_Suc_conv_app_nth)
    also have "drop (Suc n + length (live xs)) (arr[n := Some prg])
        = drop (Suc n + length (live xs)) arr"
      by simp
    finally show ?thesis by (simp add: l)
  qed
qed

lemma splice:
  assumes "n + length ys \<le> length arr"
  shows "length (take n arr @ ys @ drop (n + length ys) arr) = length arr"
    and "take (n + length ys) (take n arr @ ys @ drop (n + length ys) arr) = take n arr @ ys"
    and "drop (n + length ys + m) (take n arr @ ys @ drop (n + length ys) arr)
           = drop (n + length ys + m) arr"
proof -
  from assms have m: "min (length arr) n = n" by simp
  show "length (take n arr @ ys @ drop (n + length ys) arr) = length arr"
    using assms by (simp add: m)
  show "take (n + length ys) (take n arr @ ys @ drop (n + length ys) arr) = take n arr @ ys"
    by (simp add: m)
  have "drop (n + length ys + m) (take n arr @ ys @ drop (n + length ys) arr)
      = drop m (drop (n + length ys) arr)"
    by (simp add: m)
  also have "\<dots> = drop (n + length ys + m) arr"
    by (simp only: drop_drop add.commute)
  finally show "drop (n + length ys + m) (take n arr @ ys @ drop (n + length ys) arr)
           = drop (n + length ys + m) arr" .
qed

lemma fill_loop_unfold:
  assumes "bpf_at t p = Some b"
  shows "fill_loop t type p arr cnt =
       (case (if cnt = 0 \<or> flags b type AND BPF_F_ALLOW_MULTI \<noteq> 0
              then fill_list (progs b type) arr cnt else Some (arr, cnt)) of
          None \<Rightarrow> None
        | Some (arr', cnt') \<Rightarrow>
            if p = [] then Some (arr', cnt') else fill_loop t type (butlast p) arr' cnt')"
proof -
  from assms obtain c where c: "cgroup_at t p = Some c" "bpf c = b"
    by (auto simp: bpf_at_def)
  show ?thesis
    by (subst fill_loop.simps [of t type p arr cnt])
      (simp add: c cgroup_parent_def split: option.split)
qed

lemma fill_loop_chain:
  "bpf_chain t p = Some bs \<Longrightarrow> n + length (collected (n = 0) type bs) \<le> length arr \<Longrightarrow>
   n + length (collected (n = 0) type bs) < 2 ^ 31 \<Longrightarrow>
     fill_loop t type p arr (of_nat n) =
       Some (take n arr @ map Some (collected (n = 0) type bs)
               @ drop (n + length (collected (n = 0) type bs)) arr,
             of_nat (n + length (collected (n = 0) type bs)))"
proof (induction bs arbitrary: p n arr)
  case Nil
  then show ?case by (auto elim: bpf_chain_cases)
next
  case (Cons b bs)
  let ?add = "n = 0 \<or> flags b type AND BPF_F_ALLOW_MULTI \<noteq> 0"
  let ?lb = "live (progs b type)"
  let ?n1 = "if ?add then n + length ?lb else n"
  let ?arr1 = "if ?add then take n arr @ map Some ?lb @ drop (n + length ?lb) arr else arr"
  let ?rest = "collected (?n1 = 0) type bs"
  have coll: "collected (n = 0) type (b # bs) = (if ?add then ?lb else []) @ ?rest"
    by (auto simp: allow_multi_def)
  have room: "n + length (if ?add then ?lb else []) + length ?rest \<le> length arr"
    using Cons.prems(2) unfolding coll by simp
  have small: "n + length (if ?add then ?lb else []) + length ?rest < 2 ^ 31"
    using Cons.prems(3) unfolding coll by simp
  then have "n < 2 ^ 32" by simp
  then have test: "((of_nat n :: 32 word) = 0) = (n = 0)" by (rule word32_of_nat_eq_0)
  have step: "(if (of_nat n :: 32 word) = 0 \<or> flags b type AND BPF_F_ALLOW_MULTI \<noteq> 0
               then fill_list (progs b type) arr (of_nat n) else Some (arr, of_nat n))
              = Some (?arr1, of_nat ?n1)"
  proof (cases ?add)
    case True
    with room small have "n + length ?lb \<le> length arr" "n + length ?lb < 2 ^ 31" by simp_all
    from fill_list_live [OF this] True show ?thesis unfolding test by simp
  next
    case False
    then show ?thesis unfolding test by simp
  qed
  have len1: "length ?arr1 = length arr"
    using room splice(1) [of n "map Some ?lb" arr] by auto
  have take1: "take ?n1 ?arr1 = take n arr @ map Some (if ?add then ?lb else [])"
    using room splice(2) [of n "map Some ?lb" arr] by auto
  have drop1: "drop (?n1 + length ?rest) ?arr1
      = drop (n + length (if ?add then ?lb else []) + length ?rest) arr"
    using room splice(3) [of n "map Some ?lb" arr "length ?rest"] by auto
  have n1: "?n1 + length ?rest = n + length (collected (n = 0) type (b # bs))"
    unfolding coll by simp
  have final: "Some (take ?n1 ?arr1 @ map Some ?rest @ drop (?n1 + length ?rest) ?arr1,
                     (of_nat (?n1 + length ?rest) :: 32 word))
      = Some (take n arr @ map Some (collected (n = 0) type (b # bs))
               @ drop (n + length (collected (n = 0) type (b # bs))) arr,
             of_nat (n + length (collected (n = 0) type (b # bs))))"
    unfolding take1 drop1 n1 [symmetric] unfolding coll by simp
  from Cons.prems(1) show ?case
  proof (cases rule: bpf_chain_cases)
    case (1 b')
    then obtain c where c: "cgroup_at t p = Some c" "bpf c = b" and bs: "bs = []"
      by (auto dest: bpf_at_cgroup_at)
    have bat: "bpf_at t p = Some b" using 1 by simp
    have "fill_loop t type p arr (of_nat n) = Some (?arr1, of_nat ?n1)"
      by (subst fill_loop_unfold [OF bat], subst step) (simp add: 1(1))
    also have "\<dots> = Some (take ?n1 ?arr1 @ map Some ?rest @ drop (?n1 + length ?rest) ?arr1,
                     of_nat (?n1 + length ?rest))"
      using bs by simp
    finally show ?thesis unfolding final .
  next
    case (2 b' bs')
    then obtain c where c: "cgroup_at t p = Some c" "bpf c = b" and bs: "bs' = bs"
      by (auto dest: bpf_at_cgroup_at)
    have ch: "bpf_chain t (butlast p) = Some bs" using 2 bs by simp
    have rm: "?n1 + length ?rest \<le> length ?arr1"
      using room len1 by auto
    have sm: "?n1 + length ?rest < 2 ^ 31"
      using small by auto
    have bat: "bpf_at t p = Some b" using 2 by simp
    have "fill_loop t type p arr (of_nat n) = fill_loop t type (butlast p) ?arr1 (of_nat ?n1)"
      by (subst fill_loop_unfold [OF bat], subst step) (simp add: 2(1))
    also have "\<dots> = Some (take ?n1 ?arr1 @ map Some ?rest @ drop (?n1 + length ?rest) ?arr1,
                     of_nat (?n1 + length ?rest))"
      by (rule Cons.IH [OF ch rm sm])
    finally show ?thesis unfolding final .
  qed
qed

lemma compute_effective_progs_collected:
  assumes "bpf_chain t cgrp = Some bs"
    and "length (collected True type bs) < 2 ^ 31"
  shows "compute_effective_progs alloc_ok t cgrp type array =
    (if alloc_ok (of_nat (length (collected True type bs)))
     then Some (0, map Some (collected True type bs)) else Some (- ENOMEM, array))"
proof -
  let ?k = "length (collected True type bs)"
  have k: "0 + length (collected (0 = (0::nat)) type bs) < 2 ^ 31"
    using assms(2) by simp
  have "count_loop t type cgrp (of_nat 0)
      = Some (of_nat (0 + length (collected (0 = (0::nat)) type bs)))"
    by (rule count_loop_chain [OF assms(1) k])
  then have cnt: "count_loop t type cgrp 0 = Some (of_nat ?k)" by simp
  have size: "unat (of_nat ?k :: 32 word) = ?k"
    using assms(2) by (simp add: unat32_of_nat)
  have "fill_loop t type cgrp (replicate ?k None) (of_nat 0) =
      Some (take 0 (replicate ?k None) @ map Some (collected (0 = (0::nat)) type bs)
               @ drop (0 + length (collected (0 = (0::nat)) type bs)) (replicate ?k None),
             of_nat (0 + length (collected (0 = (0::nat)) type bs)))"
    by (rule fill_loop_chain [OF assms(1) _ k]) simp
  then have fill: "fill_loop t type cgrp (replicate ?k None) 0
      = Some (map Some (collected True type bs), of_nat ?k)"
    by simp
  show ?thesis
    by (simp add: compute_effective_progs_def cnt size fill)
qed

section \<open>Failure paths of __cgroup_bpf_update\<close>

text \<open>
  C4. A detach request (\<^verbatim>\<open>prog == NULL\<close>) at a cgroup that has no program of its own for
  the type returns \<^verbatim>\<open>-ENOENT\<close>, and the state after the call is the state before it: the
  whole tree (every cgroup's own program, override flag and effective program), the
  static key and the programs put.
\<close>

theorem detach_nothing_attached:
  assumes "cgroup_at (root_cgrp s) cgrp = Some c"
    and "prog (bpf c) type = None"
    and "from_parent s parent type \<noteq> None"
  shows "cgroup_bpf_update s cgrp parent None type new_overridable = Some (- ENOENT, s)"
  using assms by (auto simp: cgroup_bpf_update_def)

theorem detach_nothing_attached_witness:
  "cgroup_at (root_cgrp state5) [0, 0] = Some cg_B \<and> prog (bpf cg_B) 1 = None \<and>
   cgroup_bpf_update state5 [0, 0] (Some [0]) None 1 True = Some (- ENOENT, state5)"
proof -
  have 1: "cgroup_at (root_cgrp state5) [0, 0] = Some cg_B"
    by (simp add: state5_def tree5_def cg_A_def)
  have 2: "prog (bpf cg_B) 1 = None"
    by (simp add: cg_B_def bpf_inh_def)
  have 3: "from_parent state5 (Some [0]) 1 \<noteq> None"
    by (simp add: from_parent_def state5_def tree5_def)
  from detach_nothing_attached [OF 1 2 3, of True] 1 2 show ?thesis by simp
qed

text \<open>
  C3. At a cgroup that already has a program of its own for the type, an attach request
  whose mode (\<^verbatim>\<open>new_overridable\<close>) differs from the mode of the existing attachment (the
  negation of the cgroup's \<^verbatim>\<open>disallow_override[type]\<close>) returns \<^verbatim>\<open>-EPERM\<close>, and the state
  after the call is the state before it: no cgroup's own program, override flag or
  effective program has changed, nor has the static key.
\<close>

theorem attach_mode_conflict:
  assumes "cgroup_at (root_cgrp s) cgrp = Some c"
    and "prog (bpf c) type = Some old"
    and "from_parent s parent type \<noteq> None"
    and "new_overridable \<noteq> (\<not> disallow_override (bpf c) type)"
  shows "cgroup_bpf_update s cgrp parent (Some p) type new_overridable = Some (- EPERM, s)"
  using assms by (auto simp: cgroup_bpf_update_def)

theorem attach_mode_conflict_witness:
  "cgroup_at (root_cgrp state5) [0] = Some cg_A \<and> prog (bpf cg_A) 1 = Some 2 \<and>
   disallow_override (bpf cg_A) 1 \<and>
   cgroup_bpf_update state5 [0] (Some []) (Some 9) 1 True = Some (- EPERM, state5)"
proof -
  have 1: "cgroup_at (root_cgrp state5) [0] = Some cg_A"
    by (simp add: state5_def tree5_def)
  have 2: "prog (bpf cg_A) 1 = Some 2"
    by (simp add: cg_A_def bpf_own_def)
  have 3: "from_parent state5 (Some []) 1 \<noteq> None"
    by (simp add: from_parent_def)
  have 4: "True \<noteq> (\<not> disallow_override (bpf cg_A) 1)"
    by (simp add: cg_A_def bpf_own_def)
  from attach_mode_conflict [OF 1 2 3 4, of 9] 1 2 4 show ?thesis by simp
qed

section \<open>Propagation\<close>

text \<open>
  C2. After a successful update at cgroup \<open>n\<close> for a type, a descendant \<open>d\<close> of \<open>n\<close> other
  than \<open>n\<close> (the path \<open>q\<close> from \<open>n\<close> to \<open>d\<close> is not empty) that has a program of its own
  for the type is as before, and so is every cgroup \<open>r\<close> in the subtree of \<open>d\<close>: each is
  the same cgroup after the update as before it, with its effective program and its
  override flag. The walk skips the whole subtree of \<open>d\<close>.
\<close>

theorem update_skips_delegated_subtree:
  assumes "cgroup_bpf_update s n parent prg type nov = Some (0, s')"
    and "q \<noteq> []"
    and "cgroup_at (root_cgrp s) (n @ q) = Some d"
    and "prog (bpf d) type \<noteq> None"
  shows "cgroup_at (root_cgrp s') (n @ q @ r) = cgroup_at (root_cgrp s) (n @ q @ r)"
proof -
  from cgroup_bpf_update_success [OF assms(1)] obtain c ov0 eff0 where
    c: "cgroup_at (root_cgrp s) n = Some c" and
    root: "root_cgrp s' =
       modify_at n
         (\<lambda>c. update_descendants type (if prg \<noteq> None then prg else eff0)
                (if prg \<noteq> None then nov else ov0) True (set_prog type prg c))
         (root_cgrp s)"
    by blast
  from assms(3) c have d: "cgroup_at c q = Some d"
    by (simp add: cgroup_at_append)
  then have d': "cgroup_at (set_prog type prg c) q = Some d"
    using assms(2) by (simp add: cgroup_at_set_prog)
  have "cgroup_at (root_cgrp s') (n @ q) = Some d"
    unfolding root cgroup_at_modify_at_below [OF c]
    by (rule update_descendants_skipped_below [OF assms(2) d' assms(4)])
  moreover have "cgroup_at (root_cgrp s) (n @ q) = Some d" by (rule assms(3))
  ultimately show ?thesis
    using cgroup_at_append [of "root_cgrp s'" "n @ q" r] cgroup_at_append [of "root_cgrp s" "n @ q" r]
    by simp
qed

theorem update_skips_delegated_subtree_witness:
  "\<exists>s'. cgroup_bpf_update state5 [0] (Some []) None 1 True = Some (0, s') \<and>
        cgroup_at (root_cgrp state5) [0, 0, 0] = Some cg_G \<and> prog (bpf cg_G) 1 = Some 3 \<and>
        cgroup_at (root_cgrp s') [0, 0, 0] = Some cg_G \<and>
        cgroup_at (root_cgrp s') [0, 0, 0, 0] = Some cg_L"
proof -
  obtain s' where up: "cgroup_bpf_update state5 [0] (Some []) None 1 True = Some (0, s')"
    by (simp add: cgroup_bpf_update_def from_parent_def state5_def tree5_def cg_A_def
        bpf_own_def EPERM_def ENOENT_def)
  have g: "cgroup_at (root_cgrp state5) ([0] @ [0, 0]) = Some cg_G"
    by (simp add: state5_def tree5_def cg_A_def cg_B_def)
  have l: "cgroup_at (root_cgrp state5) [0, 0, 0, 0] = Some cg_L"
    by (simp add: state5_def tree5_def cg_A_def cg_B_def cg_G_def)
  have p: "prog (bpf cg_G) 1 \<noteq> None" "prog (bpf cg_G) 1 = Some 3"
    by (simp_all add: cg_G_def bpf_own_def)
  from update_skips_delegated_subtree [OF up _ g p(1), of "[]"]
    update_skips_delegated_subtree [OF up _ g p(1), of "[0]"] up g l p(2)
  show ?thesis by simp
qed

text \<open>
  C10. A successful update at cgroup \<open>n\<close> for a type writes the same value into
  \<^verbatim>\<open>disallow_override[type]\<close> of \<open>n\<close> and of every descendant its walk visits without
  skipping it (\<open>reached\<close>): the negation of \<^verbatim>\<open>overridable\<close>, which on attach is the requested
  \<^verbatim>\<open>new_overridable\<close> and on detach is the parent's (the negation of the parent's
  \<^verbatim>\<open>disallow_override[type]\<close>), or \<^verbatim>\<open>true\<close> when there is no parent. So the walk changes
  the override flags of the descendants, not only their effective programs.
\<close>

theorem update_rewrites_disallow_override:
  assumes up: "cgroup_bpf_update s n parent prg type nov = Some (0, s')"
    and c: "cgroup_at (root_cgrp s) n = Some c"
    and re: "reached type c q"
  shows "\<exists>d'. cgroup_at (root_cgrp s') (n @ q) = Some d' \<and>
     (prg \<noteq> None \<longrightarrow> disallow_override (bpf d') type = (\<not> nov)) \<and>
     (prg = None \<and> parent = None \<longrightarrow> disallow_override (bpf d') type = False) \<and>
     (\<forall>pp pc. prg = None \<and> parent = Some pp \<and> cgroup_at (root_cgrp s) pp = Some pc \<longrightarrow>
        disallow_override (bpf d') type = disallow_override (bpf pc) type)"
proof -
  from cgroup_bpf_update_success [OF up] obtain ov0 eff0 where
    fp: "from_parent s parent type = Some (ov0, eff0)" by blast
  from reached_cgroup_at [OF re] obtain d where d: "cgroup_at c q = Some d" by blast
  from update_reached_bpf [OF up c fp re d] obtain d' where
    d': "cgroup_at (root_cgrp s') (n @ q) = Some d'" and
    b: "disallow_override (bpf d') type = (\<not> (if prg \<noteq> None then nov else ov0))"
    by (auto simp: published_def)
  have "prg = None \<and> parent = None \<longrightarrow> ov0"
    using fp by (auto simp: from_parent_def)
  moreover have "\<forall>pp pc. prg = None \<and> parent = Some pp \<and> cgroup_at (root_cgrp s) pp = Some pc \<longrightarrow>
      ov0 = (\<not> disallow_override (bpf pc) type)"
    using fp by (auto simp: from_parent_def)
  ultimately show ?thesis using d' b by auto
qed

theorem update_rewrites_disallow_override_witness:
  "\<exists>s' d'. cgroup_bpf_update state5 [0] (Some []) None 1 True = Some (0, s') \<and>
        reached 1 cg_A [0] \<and>
        cgroup_at (root_cgrp state5) [0, 0] = Some cg_B \<and> disallow_override (bpf cg_B) 1 \<and>
        cgroup_at (root_cgrp s') [0, 0] = Some d' \<and> \<not> disallow_override (bpf d') 1"
proof -
  obtain s' where up: "cgroup_bpf_update state5 [0] (Some []) None 1 True = Some (0, s')"
    by (simp add: cgroup_bpf_update_def from_parent_def state5_def tree5_def cg_A_def
        bpf_own_def EPERM_def ENOENT_def)
  have a: "cgroup_at (root_cgrp state5) [0] = Some cg_A"
    by (simp add: state5_def tree5_def)
  have r: "cgroup_at (root_cgrp state5) [] = Some tree5"
    by (simp add: state5_def)
  have b: "cgroup_at (root_cgrp state5) [0, 0] = Some cg_B" "disallow_override (bpf cg_B) 1"
    by (simp_all add: state5_def tree5_def cg_A_def cg_B_def bpf_inh_def)
  have re: "reached 1 cg_A [0]"
    by (simp add: cg_A_def cg_B_def bpf_inh_def)
  have "\<not> disallow_override (bpf tree5) 1"
    by (simp add: tree5_def bpf_own_def)
  with update_rewrites_disallow_override [OF up a re] up r b re
  show ?thesis by auto
qed

text \<open>
  C5. After a successful update at \<open>n\<close> (called with the parent of \<open>n\<close>), a cgroup the walk
  reached that has no program of its own for the type has the effective program of its
  parent. And \<^verbatim>\<open>cgroup_bpf_inherit\<close>, called on a cgroup and its parent, returns, and gives
  the cgroup, for every attach type, the effective program and the \<^verbatim>\<open>disallow_override\<close>
  value its parent has at that moment.
\<close>

theorem inheritance_correct:
  "(cgroup_bpf_update s n (cgroup_parent n) prg type nov = Some (0, s') \<and>
    cgroup_at (root_cgrp s) n = Some c \<and> reached type c q \<and>
    cgroup_at (root_cgrp s') (n @ q) = Some d' \<and> prog (bpf d') type = None \<and>
    cgroup_parent (n @ q) = Some pp \<and> cgroup_at (root_cgrp s') pp = Some pd'
    \<longrightarrow> effective (bpf d') type = effective (bpf pd') type) \<and>
   (cgroup_at (root_cgrp s0) cgrp = Some c0 \<and> cgroup_at (root_cgrp s0) parent = Some pc
    \<longrightarrow> (\<exists>s1 c'. cgroup_bpf_inherit nr s0 cgrp parent = Some s1 \<and>
          cgroup_at (root_cgrp s1) cgrp = Some c' \<and>
          (\<forall>type < nr. effective (bpf c') type = effective (bpf pc) type \<and>
                       disallow_override (bpf c') type = disallow_override (bpf pc) type)))"
proof (intro conjI impI)
  assume "cgroup_bpf_update s n (cgroup_parent n) prg type nov = Some (0, s') \<and>
    cgroup_at (root_cgrp s) n = Some c \<and> reached type c q \<and>
    cgroup_at (root_cgrp s') (n @ q) = Some d' \<and> prog (bpf d') type = None \<and>
    cgroup_parent (n @ q) = Some pp \<and> cgroup_at (root_cgrp s') pp = Some pd'"
  then show "effective (bpf d') type = effective (bpf pd') type"
    by (elim conjE) (rule update_inherits_parent)
next
  assume "cgroup_at (root_cgrp s0) cgrp = Some c0 \<and> cgroup_at (root_cgrp s0) parent = Some pc"
  then show "\<exists>s1 c'. cgroup_bpf_inherit nr s0 cgrp parent = Some s1 \<and>
          cgroup_at (root_cgrp s1) cgrp = Some c' \<and>
          (\<forall>type < nr. effective (bpf c') type = effective (bpf pc) type \<and>
                       disallow_override (bpf c') type = disallow_override (bpf pc) type)"
    by (elim conjE) (rule inherit_copies_parent)
qed

theorem inheritance_correct_witness:
  "(\<exists>s' d'.
     cgroup_bpf_update state5 [0] (cgroup_parent [0]) None 1 True = Some (0, s') \<and>
     cgroup_at (root_cgrp s') [0] = Some d' \<and> prog (bpf d') 1 = None \<and>
     cgroup_parent [0] = Some [] \<and> cgroup_at (root_cgrp s') [] = Some (root_cgrp s') \<and>
     effective (bpf d') 1 = effective (bpf (root_cgrp s')) 1 \<and>
     effective (bpf d') 1 = Some 1) \<and>
   cgroup_at (root_cgrp stateN) [0, 0] = Some cg_new \<and>
   cgroup_at (root_cgrp stateN) [0] = Some cg_P \<and>
   effective (bpf cg_new) 1 = None \<and> \<not> disallow_override (bpf cg_new) 1 \<and>
   (\<exists>s1 c'.
     cgroup_bpf_inherit 2 stateN [0, 0] [0] = Some s1 \<and>
     cgroup_at (root_cgrp s1) [0, 0] = Some c' \<and>
     effective (bpf c') 0 = None \<and>
     effective (bpf c') 1 = Some 2 \<and>
     disallow_override (bpf c') 1)"
proof -
  have par: "cgroup_parent [0] = Some []"
    by (simp add: cgroup_parent_def)
  obtain s' where up: "cgroup_bpf_update state5 [0] (cgroup_parent [0]) None 1 True = Some (0, s')"
    by (simp add: par cgroup_bpf_update_def from_parent_def state5_def tree5_def cg_A_def
        bpf_own_def EPERM_def ENOENT_def)
  then have s': "s' = snd (the (cgroup_bpf_update state5 [0] (Some []) None 1 True))"
    by (simp add: par)
  have a: "cgroup_at (root_cgrp state5) [0] = Some cg_A"
    by (simp add: state5_def tree5_def)
  obtain d' where d': "cgroup_at (root_cgrp s') [0] = Some d'" and np: "prog (bpf d') 1 = None"
    and e1: "effective (bpf d') 1 = Some 1"
    unfolding s'
    by (simp add: cgroup_bpf_update_def from_parent_def state5_def tree5_def cg_A_def
        bpf_own_def EPERM_def ENOENT_def)
  have n: "cgroup_at (root_cgrp stateN) [0, 0] = Some cg_new"
    by (simp add: stateN_def cg_P_def)
  have p: "cgroup_at (root_cgrp stateN) [0] = Some cg_P"
    by (simp add: stateN_def)
  have before: "effective (bpf cg_new) 1 = None \<and> \<not> disallow_override (bpf cg_new) 1"
    by (simp add: cg_new_def bpf_empty_def)
  have parent: "effective (bpf cg_P) 0 = None \<and> effective (bpf cg_P) 1 = Some 2 \<and>
      disallow_override (bpf cg_P) 1"
    by (simp add: cg_P_def bpf_own_def)
  note w = inheritance_correct [where s = state5 and n = "[0]" and prg = None and type = 1
      and nov = True and s' = s' and c = cg_A and q = "[]" and d' = d' and pp = "[]"
      and pd' = "root_cgrp s'" and nr = 2 and ?s0.0 = stateN and cgrp = "[0, 0]"
      and parent = "[0]" and ?c0.0 = cg_new and pc = cg_P]
  from w up a d' np par
  have 1: "effective (bpf d') 1 = effective (bpf (root_cgrp s')) 1" by simp
  from w n p obtain s1 c' where
    i: "cgroup_bpf_inherit 2 stateN [0, 0] [0] = Some s1"
       "cgroup_at (root_cgrp s1) [0, 0] = Some c'" and
    v: "\<forall>type < 2. effective (bpf c') type = effective (bpf cg_P) type \<and>
                    disallow_override (bpf c') type = disallow_override (bpf cg_P) type"
    by blast
  from v parent have 2: "effective (bpf c') 0 = None \<and> effective (bpf c') 1 = Some 2 \<and>
      disallow_override (bpf c') 1"
    by (simp add: less_Suc_eq numeral_2_eq_2)
  from up d' np par e1 1 n p before i 2 show ?thesis by auto
qed

section \<open>The run functions\<close>

text \<open>
  C9. When the socket is \<^verbatim>\<open>NULL\<close>, is not a full socket, or is of a family other than
  \<^verbatim>\<open>AF_INET\<close> and \<^verbatim>\<open>AF_INET6\<close>, \<^verbatim>\<open>__cgroup_bpf_run_filter_skb\<close> returns 0 with no event at
  all: the effective program is not loaded and no program runs, whatever the state holds
  and whatever the programs would return. The buffer is as before.
\<close>

theorem run_filter_skb_ineligible_socket:
  assumes "sk = None \<or>
     (\<exists>sock. sk = Some sock \<and>
        (\<not> sk_fullsock sock \<or> (sk_family sock \<noteq> AF_INET \<and> sk_family sock \<noteq> AF_INET6)))"
  shows "cgroup_bpf_run_filter_skb run s sk skb type = Some (0, skb, [])"
  using assms by (auto simp: cgroup_bpf_run_filter_skb_def)

theorem run_filter_skb_ineligible_socket_witness:
  "sk_fullsock sock_unix \<and> sk_family sock_unix \<noteq> AF_INET \<and> sk_family sock_unix \<noteq> AF_INET6 \<and>
   cgroup_at (root_cgrp state5) (sk_cgrp sock_unix) = Some cg_A \<and>
   effective (bpf cg_A) 1 = Some 2 \<and>
   cgroup_bpf_run_filter_skb run_reject_cb state5 (Some sock_unix) skb0 1 = Some (0, skb0, [])"
proof -
  have 1: "sk_family sock_unix \<noteq> AF_INET \<and> sk_family sock_unix \<noteq> AF_INET6"
    by (simp add: sock_unix_def AF_INET_def AF_INET6_def)
  have 2: "sk_fullsock sock_unix"
    by (simp add: sock_unix_def)
  have 3: "cgroup_at (root_cgrp state5) (sk_cgrp sock_unix) = Some cg_A"
    by (simp add: sock_unix_def state5_def tree5_def)
  have 4: "effective (bpf cg_A) 1 = Some 2"
    by (simp add: cg_A_def bpf_own_def)
  from run_filter_skb_ineligible_socket
    [of "Some sock_unix" run_reject_cb state5 skb0 1] 1 2 3 4
  show ?thesis by simp
qed

text \<open>
  C6, as the code has it. Every run function returns a verdict, 0 or \<^verbatim>\<open>-EPERM\<close>. The
  effective snapshot of a cgroup holds at most one program. On the \<^verbatim>\<open>sk\<close> and the
  \<^verbatim>\<open>sock_ops\<close> path, and on the \<^verbatim>\<open>skb\<close> path when the socket is a full socket of family
  \<^verbatim>\<open>AF_INET\<close> or \<^verbatim>\<open>AF_INET6\<close>, the verdict and the programs run are those of the snapshot
  run in order: nothing runs and the verdict is 0 when the snapshot is empty; the first
  program that does not return 1 gives \<^verbatim>\<open>-EPERM\<close>; the verdict is 0 when all return 1. On
  the \<^verbatim>\<open>skb\<close> path with any other socket, or none, the verdict is 0 and nothing runs,
  whatever the snapshot holds.
\<close>

theorem run_filter_verdict:
  "(cgroup_at (root_cgrp s) (sk_cgrp sk) = Some c \<longrightarrow>
      (\<exists>es. cgroup_bpf_run_filter_sk run s sk type =
              Some (fst (spec_run_chain (\<lambda>p. run p sk) (chain_of (effective (bpf c) type))), es) \<and>
            progs_run es = snd (spec_run_chain (\<lambda>p. run p sk) (chain_of (effective (bpf c) type)))) \<and>
      (\<exists>es. cgroup_bpf_run_filter_sock_ops run_ops s sk sock_ops type =
              Some (fst (spec_run_chain (\<lambda>p. run_ops p sock_ops)
                           (chain_of (effective (bpf c) type))), es) \<and>
            progs_run es = snd (spec_run_chain (\<lambda>p. run_ops p sock_ops)
                                  (chain_of (effective (bpf c) type))))) \<and>
   (sk_fullsock sock \<and> (sk_family sock = AF_INET \<or> sk_family sock = AF_INET6) \<and>
    cgroup_at (root_cgrp s) (sk_cgrp sock) = Some c' \<and>
    skb1 = skb_push (skb\<lparr>skb_sk := Some sock\<rparr>)
             (word_of_int (skb_data skb - skb_network_header skb)) \<longrightarrow>
      (\<exists>skb' es. cgroup_bpf_run_filter_skb run_cb s (Some sock) skb type =
              Some (fst (spec_run_chain (\<lambda>p. fst (run_cb p skb1))
                           (chain_of (effective (bpf c') type))), skb', es) \<and>
            progs_run es = snd (spec_run_chain (\<lambda>p. fst (run_cb p skb1))
                                  (chain_of (effective (bpf c') type))))) \<and>
   (\<not> sk_fullsock sock \<or> (sk_family sock \<noteq> AF_INET \<and> sk_family sock \<noteq> AF_INET6) \<longrightarrow>
      cgroup_bpf_run_filter_skb run_cb s (Some sock) skb type = Some (0, skb, [])) \<and>
   cgroup_bpf_run_filter_skb run_cb s None skb type = Some (0, skb, [])"
proof (intro conjI impI)
  assume c: "cgroup_at (root_cgrp s) (sk_cgrp sk) = Some c"
  show "\<exists>es. cgroup_bpf_run_filter_sk run s sk type =
              Some (fst (spec_run_chain (\<lambda>p. run p sk) (chain_of (effective (bpf c) type))), es) \<and>
            progs_run es = snd (spec_run_chain (\<lambda>p. run p sk) (chain_of (effective (bpf c) type)))"
    by (cases "effective (bpf c) type")
      (simp_all add: cgroup_bpf_run_filter_sk_def c chain_of_def)
  show "\<exists>es. cgroup_bpf_run_filter_sock_ops run_ops s sk sock_ops type =
              Some (fst (spec_run_chain (\<lambda>p. run_ops p sock_ops)
                           (chain_of (effective (bpf c) type))), es) \<and>
            progs_run es = snd (spec_run_chain (\<lambda>p. run_ops p sock_ops)
                                  (chain_of (effective (bpf c) type)))"
    by (cases "effective (bpf c) type")
      (simp_all add: cgroup_bpf_run_filter_sock_ops_def c chain_of_def)
next
  assume a: "sk_fullsock sock \<and> (sk_family sock = AF_INET \<or> sk_family sock = AF_INET6) \<and>
    cgroup_at (root_cgrp s) (sk_cgrp sock) = Some c' \<and>
    skb1 = skb_push (skb\<lparr>skb_sk := Some sock\<rparr>)
             (word_of_int (skb_data skb - skb_network_header skb))"
  show "\<exists>skb' es. cgroup_bpf_run_filter_skb run_cb s (Some sock) skb type =
              Some (fst (spec_run_chain (\<lambda>p. fst (run_cb p skb1))
                           (chain_of (effective (bpf c') type))), skb', es) \<and>
            progs_run es = snd (spec_run_chain (\<lambda>p. fst (run_cb p skb1))
                                  (chain_of (effective (bpf c') type)))"
    using a
    by (cases "effective (bpf c') type")
      (auto simp: cgroup_bpf_run_filter_skb_def chain_of_def Let_def split: prod.splits)
next
  assume "\<not> sk_fullsock sock \<or> (sk_family sock \<noteq> AF_INET \<and> sk_family sock \<noteq> AF_INET6)"
  then show "cgroup_bpf_run_filter_skb run_cb s (Some sock) skb type = Some (0, skb, [])"
    by (auto simp: cgroup_bpf_run_filter_skb_def)
next
  show "cgroup_bpf_run_filter_skb run_cb s None skb type = Some (0, skb, [])"
    by (simp add: cgroup_bpf_run_filter_skb_def)
qed

theorem run_filter_verdict_witness:
  "cgroup_at (root_cgrp state5) (sk_cgrp sock_inet) = Some cg_A \<and>
   chain_of (effective (bpf cg_A) 1) = [2] \<and>
   sk_fullsock sock_inet \<and> sk_family sock_inet = AF_INET \<and>
   cgroup_bpf_run_filter_sk run_reject state5 sock_inet 1 =
     Some (- EPERM, [Rcu_read_lock, Rcu_dereference [0] 1, Prog_run 2, Rcu_read_unlock]) \<and>
   (\<exists>skb' es. cgroup_bpf_run_filter_skb run_reject_cb state5 (Some sock_inet) skb0 1 =
       Some (- EPERM, skb', es) \<and> progs_run es = [2]) \<and>
   cgroup_bpf_run_filter_skb run_reject_cb state5 (Some sock_unix) skb0 1 = Some (0, skb0, [])"
proof -
  have 1: "cgroup_at (root_cgrp state5) (sk_cgrp sock_inet) = Some cg_A"
    by (simp add: sock_inet_def state5_def tree5_def)
  have 2: "chain_of (effective (bpf cg_A) 1) = [2]"
    by (simp add: cg_A_def bpf_own_def chain_of_def)
  have 3: "sk_fullsock sock_inet \<and> sk_family sock_inet = AF_INET"
    by (simp add: sock_inet_def)
  have 4: "sk_fullsock sock_unix \<and> sk_family sock_unix \<noteq> AF_INET \<and> sk_family sock_unix \<noteq> AF_INET6"
    by (simp add: sock_unix_def AF_INET_def AF_INET6_def)
  have 5: "cgroup_bpf_run_filter_sk run_reject state5 sock_inet 1 =
     Some (- EPERM, [Rcu_read_lock, Rcu_dereference [0] 1, Prog_run 2, Rcu_read_unlock])"
    by (simp add: cgroup_bpf_run_filter_sk_def state5_def tree5_def sock_inet_def cg_A_def
        bpf_own_def run_reject_def verdict_zero_def)
  note inet = run_filter_verdict [where s = state5 and sk = sock_inet and c = cg_A and type = 1
      and run = run_reject and run_ops = run_reject and sock_ops = "0::nat"
      and sock = sock_inet and c' = cg_A and skb = skb0 and run_cb = run_reject_cb
      and ?skb1.0 = "skb_push (skb0\<lparr>skb_sk := Some sock_inet\<rparr>)
             (word_of_int (skb_data skb0 - skb_network_header skb0))"]
  note unix = run_filter_verdict [where s = state5 and sk = sock_inet and c = cg_A and type = 1
      and run = run_reject and run_ops = run_reject and sock_ops = "0::nat"
      and sock = sock_unix and c' = cg_A and skb = skb0 and run_cb = run_reject_cb
      and ?skb1.0 = skb0]
  from inet 1 2 3 have "\<exists>skb' es. cgroup_bpf_run_filter_skb run_reject_cb state5 (Some sock_inet) skb0 1 =
       Some (- EPERM, skb', es) \<and> progs_run es = [2]"
    by (simp add: run_reject_cb_def verdict_zero_def)
  moreover from unix 4
  have "cgroup_bpf_run_filter_skb run_reject_cb state5 (Some sock_unix) skb0 1 = Some (0, skb0, [])"
    by simp
  ultimately show ?thesis using 1 2 3 5 by simp
qed

text \<open>
  C6, as stated, fails on the \<^verbatim>\<open>skb\<close> path. A full \<^verbatim>\<open>AF_UNIX\<close> socket sits in a cgroup
  whose snapshot holds program 2, and program 2 returns 0. Run in order, the snapshot
  rejects after running program 2; \<^verbatim>\<open>__cgroup_bpf_run_filter_skb\<close> returns 0 and runs
  nothing.
\<close>

theorem run_filter_counterexample:
  "cgroup_at (root_cgrp state5) (sk_cgrp sock_unix) = Some cg_A \<and>
   chain_of (effective (bpf cg_A) 1) = [2] \<and>
   run_reject_cb 2 skb0 = (verdict_zero 2, skb0) \<and>
   spec_run_chain verdict_zero (chain_of (effective (bpf cg_A) 1)) = (- EPERM, [2]) \<and>
   cgroup_bpf_run_filter_skb run_reject_cb state5 (Some sock_unix) skb0 1 = Some (0, skb0, []) \<and>
   progs_run [] \<noteq> [2] \<and> (0 :: int) \<noteq> - EPERM"
  by (simp add: cgroup_bpf_run_filter_skb_def sock_unix_def state5_def tree5_def cg_A_def
      bpf_own_def chain_of_def run_reject_cb_def verdict_zero_def AF_INET_def AF_INET6_def
      EPERM_def)

section \<open>hierarchy_allows_attach\<close>

text \<open>
  C7. \<open>b # bs\<close> are the \<^verbatim>\<open>bpf\<close> members of the cgroup and of its ancestors, the parent
  first and the root last. The check looks at the ancestors in that order. It returns
  true when every ancestor has been passed; an ancestor is passed when it has no multi
  bit and no program. At the first ancestor \<open>a\<close> that is not passed it returns true if
  \<open>a\<close> has the multi bit, and, if \<open>a\<close> has no multi bit and exactly one program, it
  returns true exactly when the flags of \<open>a\<close> allow overriding (the spec's
  \<open>flags.disallow_override\<close> is false, that is the bit \<^verbatim>\<open>BPF_F_ALLOW_OVERRIDE\<close> is set).
\<close>

theorem hierarchy_allows_attach_decision:
  assumes "bpf_chain t cgrp = Some (b # bs)"
  shows "((\<forall>a \<in> set bs. \<not> allow_multi a type \<and> live (progs a type) = []) \<longrightarrow>
            hierarchy_allows_attach t cgrp type new_flags = Some True) \<and>
         (bs = near @ a # far \<and>
          (\<forall>x \<in> set near. \<not> allow_multi x type \<and> live (progs x type) = []) \<longrightarrow>
            (allow_multi a type \<longrightarrow>
               hierarchy_allows_attach t cgrp type new_flags = Some True) \<and>
            (\<not> allow_multi a type \<and> length (live (progs a type)) = 1 \<longrightarrow>
               hierarchy_allows_attach t cgrp type new_flags
                 = Some (\<not> flags_disallow_override a type)))"
proof -
  note h = hierarchy_allows_attach_chain [OF assms, of type new_flags]
  have "(\<forall>a \<in> set bs. \<not> allow_multi a type \<and> live (progs a type) = []) \<longrightarrow> walk_chain type bs"
    using walk_chain_pass [of bs type "[]"] by simp
  moreover have "bs = near @ a # far \<and>
          (\<forall>x \<in> set near. \<not> allow_multi x type \<and> live (progs x type) = []) \<longrightarrow>
            (allow_multi a type \<longrightarrow> walk_chain type bs) \<and>
            (\<not> allow_multi a type \<and> length (live (progs a type)) = 1 \<longrightarrow>
               walk_chain type bs = (\<not> flags_disallow_override a type))"
    using walk_chain_pass [of near type "a # far"]
    by (auto simp: allow_multi_def flags_disallow_override_def prog_list_length_one)
  ultimately show ?thesis unfolding h by simp
qed



theorem hierarchy_allows_attach_decision_witness:
  "bpf_chain treeM [0, 0] = Some (bN # [] @ bA # [bG]) \<and>
   \<not> allow_multi bA 1 \<and> length (live (progs bA 1)) = 1 \<and> \<not> flags_disallow_override bA 1 \<and>
   hierarchy_allows_attach treeM [0, 0] 1 0 = Some True \<and>
   bpf_chain treeD [0] = Some (bpf_empty # [] @ bD # []) \<and>
   \<not> allow_multi bD 1 \<and> length (live (progs bD 1)) = 1 \<and> flags_disallow_override bD 1 \<and>
   hierarchy_allows_attach treeD [0] 1 0 = Some False \<and>
   bpf_chain treeM [0] = Some (bA # [] @ bG # []) \<and> allow_multi bG 1 \<and>
   hierarchy_allows_attach treeM [0] 1 0 = Some True \<and>
   bpf_chain tree3 [0, 0] = Some [bpf_empty, bpf_empty, bpf_empty] \<and>
   \<not> allow_multi bpf_empty 1 \<and> live (progs bpf_empty 1) = [] \<and>
   hierarchy_allows_attach tree3 [0, 0] 1 0 = Some True"
proof -
  have n: "bpf_chain treeM [0, 0] = Some (bN # [] @ bA # [bG])"
    by (simp add: bpf_chain_unfold bpf_at_def treeM_def)
  have a: "bpf_chain treeM [0] = Some (bA # [] @ bG # [])"
    by (simp add: bpf_chain_unfold bpf_at_def treeM_def)
  have d: "bpf_chain treeD [0] = Some (bpf_empty # [] @ bD # [])"
    by (simp add: bpf_chain_unfold bpf_at_def treeD_def)
  have e: "bpf_chain tree3 [0, 0] = Some [bpf_empty, bpf_empty, bpf_empty]"
    by (simp add: bpf_chain_unfold bpf_at_def tree3_def)
  have fa: "\<not> allow_multi bA 1 \<and> length (live (progs bA 1)) = 1 \<and> \<not> flags_disallow_override bA 1"
    by (simp add: allow_multi_def flags_disallow_override_def bA_def bpf_lists_def live_def
        List.map_filter_simps BPF_F_ALLOW_MULTI_def BPF_F_ALLOW_OVERRIDE_def)
  have fd: "\<not> allow_multi bD 1 \<and> length (live (progs bD 1)) = 1 \<and> flags_disallow_override bD 1"
    by (simp add: allow_multi_def flags_disallow_override_def bD_def bpf_lists_def live_def
        List.map_filter_simps)
  have fg: "allow_multi bG 1"
    by (simp add: allow_multi_def bG_def bpf_lists_def BPF_F_ALLOW_MULTI_def)
  have fe: "\<not> allow_multi bpf_empty 1 \<and> live (progs bpf_empty 1) = []"
    by (simp add: allow_multi_def bpf_empty_def live_def List.map_filter_simps)
  from hierarchy_allows_attach_decision [OF n, where type = 1 and near = "[]" and a = bA
      and far = "[bG]" and new_flags = 0] fa
  have 1: "hierarchy_allows_attach treeM [0, 0] 1 0 = Some True" by simp
  from hierarchy_allows_attach_decision [OF d, where type = 1 and near = "[]" and a = bD
      and far = "[]" and new_flags = 0] fd
  have 2: "hierarchy_allows_attach treeD [0] 1 0 = Some False" by simp
  from hierarchy_allows_attach_decision [OF a, where type = 1 and near = "[]" and a = bG
      and far = "[]" and new_flags = 0] fg
  have 3: "hierarchy_allows_attach treeM [0] 1 0 = Some True" by simp
  from hierarchy_allows_attach_decision [OF e, where type = 1 and near = "[]" and a = bpf_empty
      and far = "[bpf_empty]" and new_flags = 0] fe
  have 4: "hierarchy_allows_attach tree3 [0, 0] 1 0 = Some True" by simp
  from n a d e fa fd fg fe 1 2 3 4 show ?thesis by simp
qed

section \<open>The effective chain\<close>

lemma attach_publishes_prog:
  assumes up: "cgroup_bpf_update s n parent (Some p) type nov = Some (0, s')"
  shows "\<exists>c. cgroup_at (root_cgrp s') n = Some c \<and> effective (bpf c) type = Some p"
proof -
  from cgroup_bpf_update_success [OF up] obtain c ov0 eff0 where
    c: "cgroup_at (root_cgrp s) n = Some c" and
    fp: "from_parent s parent type = Some (ov0, eff0)"
    by blast
  have re: "reached type c []" by simp
  have d: "cgroup_at c [] = Some c" by simp
  from update_reached_bpf [OF up c fp re d] show ?thesis by auto
qed

lemma update_keeps_bpf_outside:
  assumes up: "cgroup_bpf_update s n parent prg type nov = Some (0, s')"
    and out: "\<not> prefix n q"
  shows "map_option bpf (cgroup_at (root_cgrp s') q) = map_option bpf (cgroup_at (root_cgrp s) q)"
proof -
  from cgroup_bpf_update_success [OF up] obtain ov0 eff0 where
    "root_cgrp s' =
       modify_at n
         (\<lambda>c. update_descendants type (if prg \<noteq> None then prg else eff0)
                (if prg \<noteq> None then nov else ov0) True (set_prog type prg c))
         (root_cgrp s)"
    by blast
  then show ?thesis by (simp add: bpf_modify_at_outside [OF out])
qed

text \<open>
  C1, as the code has it. The attach path publishes one program, not a chain: after the
  root attached \<open>p1\<close> and its child \<open>i\<close> then attached \<open>p2\<close>, both overridable and
  through \<^verbatim>\<open>__cgroup_bpf_update\<close>, the effective snapshot of the child is \<open>[p2]\<close> and that
  of the root is \<open>[p1]\<close>. \<^verbatim>\<open>compute_effective_progs\<close>, which the attach path does not
  call, returns the programs of the cgroup's own list first and then, nearest first, the
  programs of every ancestor that has the multi bit or is met while nothing has been
  collected; the walk always goes on to the root, and an ancestor without the multi bit
  that is met after something has been collected is passed over. This holds when the
  programs so collected are fewer than \<open>2 ^ 31\<close>, so that the 32-bit counter does not
  wrap, and the allocation succeeds.
\<close>

theorem attach_and_compute_chain:
  "(cgroup_bpf_update s [] None (Some p1) type True = Some (0, s1) \<and>
    cgroup_bpf_update s1 [i] (Some []) (Some p2) type True = Some (0, s2) \<longrightarrow>
      (\<exists>c. cgroup_at (root_cgrp s2) [i] = Some c \<and>
           chain_of (effective (bpf c) type) = [p2] \<and>
           chain_of (effective (bpf (root_cgrp s2)) type) = [p1])) \<and>
   (bpf_chain t cgrp = Some bs \<and>
    length (collected True type' bs) < 2 ^ 31 \<and>
    alloc_ok (of_nat (length (collected True type' bs))) \<longrightarrow>
      compute_effective_progs alloc_ok t cgrp type' array
        = Some (0, map Some (collected True type' bs)))"
proof (intro conjI impI)
  assume a: "cgroup_bpf_update s [] None (Some p1) type True = Some (0, s1) \<and>
    cgroup_bpf_update s1 [i] (Some []) (Some p2) type True = Some (0, s2)"
  from attach_publishes_prog [of s "[]" None p1 type True s1] a
  have r1: "effective (bpf (root_cgrp s1)) type = Some p1" by simp
  from attach_publishes_prog [of s1 "[i]" "Some []" p2 type True s2] a
  obtain c where c: "cgroup_at (root_cgrp s2) [i] = Some c" "effective (bpf c) type = Some p2"
    by blast
  have "\<not> prefix [i] []" by simp
  from update_keeps_bpf_outside [OF _ this, of s1 "Some []" "Some p2" type True s2] a
  have "bpf (root_cgrp s2) = bpf (root_cgrp s1)" by simp
  with r1 c show "\<exists>c. cgroup_at (root_cgrp s2) [i] = Some c \<and>
           chain_of (effective (bpf c) type) = [p2] \<and>
           chain_of (effective (bpf (root_cgrp s2)) type) = [p1]"
    by (simp add: chain_of_def)
next
  assume "bpf_chain t cgrp = Some bs \<and>
    length (collected True type' bs) < 2 ^ 31 \<and>
    alloc_ok (of_nat (length (collected True type' bs)))"
  then show "compute_effective_progs alloc_ok t cgrp type' array
        = Some (0, map Some (collected True type' bs))"
    by (simp add: compute_effective_progs_collected)
qed

theorem attach_and_compute_chain_witness:
  "cgroup_bpf_update state3 [] None (Some 1) 1 True = Some (0, stateB1) \<and>
   cgroup_bpf_update stateB1 [0] (Some []) (Some 2) 1 True = Some (0, stateB2) \<and>
   (\<exists>c. cgroup_at (root_cgrp stateB2) [0] = Some c \<and>
        chain_of (effective (bpf c) 1) = [2] \<and>
        chain_of (effective (bpf (root_cgrp stateB2)) 1) = [1]) \<and>
   bpf_chain treeM [0, 0] = Some [bN, bA, bG] \<and>
   collected True 1 [bN, bA, bG] = [1, 3] \<and>
   length (collected True 1 [bN, bA, bG]) < 2 ^ 31 \<and>
   compute_effective_progs alloc_always treeM [0, 0] 1 [] = Some (0, [Some 1, Some 3])"
proof -
  have 1: "cgroup_bpf_update state3 [] None (Some 1) 1 True = Some (0, stateB1)"
    by (simp add: cgroup_bpf_update_def from_parent_def state3_def tree3_def stateB1_def
        bpf_empty_def bpf_own_def bpf_inh_def EPERM_def ENOENT_def Let_def)
  have 2: "cgroup_bpf_update stateB1 [0] (Some []) (Some 2) 1 True = Some (0, stateB2)"
    by (simp add: cgroup_bpf_update_def from_parent_def stateB1_def stateB2_def cg_C_def
        bpf_own_def bpf_inh_def EPERM_def ENOENT_def Let_def)
  have 3: "bpf_chain treeM [0, 0] = Some [bN, bA, bG]"
    by (simp add: bpf_chain_unfold bpf_at_def treeM_def)
  have 4: "collected True 1 [bN, bA, bG] = [1, 3]"
    by (simp add: allow_multi_def bN_def bA_def bG_def bpf_lists_def live_def
        List.map_filter_simps BPF_F_ALLOW_MULTI_def BPF_F_ALLOW_OVERRIDE_def)
  have 5: "length (collected True 1 [bN, bA, bG]) < 2 ^ 31"
    unfolding 4 by simp
  note e = attach_and_compute_chain [where s = state3 and ?p1.0 = 1 and type = 1 and ?s1.0 = stateB1
      and i = 0 and ?p2.0 = 2 and ?s2.0 = stateB2 and t = treeM and cgrp = "[0, 0]"
      and bs = "[bN, bA, bG]" and type' = 1 and alloc_ok = alloc_always and array = "[]"]
  have 6: "\<exists>c. cgroup_at (root_cgrp stateB2) [0] = Some c \<and>
        chain_of (effective (bpf c) 1) = [2] \<and>
        chain_of (effective (bpf (root_cgrp stateB2)) 1) = [1]"
    by (rule e [THEN conjunct1, THEN mp]) (simp only: 1 2 simp_thms)
  have "compute_effective_progs alloc_always treeM [0, 0] 1 []
      = Some (0, map Some (collected True 1 [bN, bA, bG]))"
    by (rule e [THEN conjunct2, THEN mp]) (use 3 5 in \<open>simp add: alloc_always_def\<close>)
  then have 7: "compute_effective_progs alloc_always treeM [0, 0] 1 [] = Some (0, [Some 1, Some 3])"
    unfolding 4 by simp
  from 1 2 3 4 5 6 7 show ?thesis by (simp only: simp_thms)
qed

text \<open>
  C1, as stated, fails twice. In scenario B the snapshot published at the child is
  \<open>[2]\<close>, not \<open>[2, 1]\<close>. And on the chain N, A, G, where only G has the multi bit, the
  spec's chain for N ends with A, the first ancestor without the multi bit, and is
  \<open>[1, 2]\<close>, while \<^verbatim>\<open>compute_effective_progs\<close> passes over A, goes on to G and returns
  \<open>[1, 3]\<close>.
\<close>

theorem attach_and_compute_chain_counterexample:
  "cgroup_bpf_update state3 [] None (Some 1) 1 True = Some (0, stateB1) \<and>
   cgroup_bpf_update stateB1 [0] (Some []) (Some 2) 1 True = Some (0, stateB2) \<and>
   cgroup_at (root_cgrp stateB2) [0] = Some cg_C \<and>
   chain_of (effective (bpf cg_C) 1) = [2] \<and>
   chain_of (effective (bpf cg_C) 1) \<noteq> [2, 1] \<and>
   bpf_chain treeM [0, 0] = Some [bN, bA, bG] \<and>
   spec_effective_chain 1 [bN, bA, bG] = [1, 2] \<and>
   compute_effective_progs alloc_always treeM [0, 0] 1 [] = Some (0, [Some 1, Some 3]) \<and>
   compute_effective_progs alloc_always treeM [0, 0] 1 []
     \<noteq> Some (0, map Some (spec_effective_chain 1 [bN, bA, bG]))"
proof -
  have 1: "cgroup_bpf_update state3 [] None (Some 1) 1 True = Some (0, stateB1)"
    by (simp add: cgroup_bpf_update_def from_parent_def state3_def tree3_def stateB1_def
        bpf_empty_def bpf_own_def bpf_inh_def EPERM_def ENOENT_def Let_def)
  have 2: "cgroup_bpf_update stateB1 [0] (Some []) (Some 2) 1 True = Some (0, stateB2)"
    by (simp add: cgroup_bpf_update_def from_parent_def stateB1_def stateB2_def cg_C_def
        bpf_own_def bpf_inh_def EPERM_def ENOENT_def Let_def)
  have 3: "cgroup_at (root_cgrp stateB2) [0] = Some cg_C"
    by (simp add: stateB2_def)
  have 4: "chain_of (effective (bpf cg_C) 1) = [2]"
    by (simp add: cg_C_def bpf_own_def chain_of_def)
  have 5: "bpf_chain treeM [0, 0] = Some [bN, bA, bG]"
    by (simp add: bpf_chain_unfold bpf_at_def treeM_def)
  have 6: "spec_effective_chain 1 [bN, bA, bG] = [1, 2]"
    by (simp add: allow_multi_def bN_def bA_def bG_def bpf_lists_def live_def
        List.map_filter_simps BPF_F_ALLOW_MULTI_def BPF_F_ALLOW_OVERRIDE_def)
  have c: "collected True 1 [bN, bA, bG] = [1, 3]"
    by (simp add: allow_multi_def bN_def bA_def bG_def bpf_lists_def live_def
        List.map_filter_simps BPF_F_ALLOW_MULTI_def BPF_F_ALLOW_OVERRIDE_def)
  then have "length (collected True 1 [bN, bA, bG]) < 2 ^ 31" by simp
  from compute_effective_progs_collected [OF 5 this, of alloc_always "[]"]
  have 7: "compute_effective_progs alloc_always treeM [0, 0] 1 [] = Some (0, [Some 1, Some 3])"
    unfolding c by (simp add: alloc_always_def)
  from 1 2 3 4 5 6 7 show ?thesis by simp
qed

end
